theory Spec2Isabelle
  imports Main "HOL-Library.Multiset"
begin

section \<open>Go channels, as far as gpool uses them\<close>

text \<open>
  The pool of \<^verbatim>\<open>gpool.go\<close> is a buffered channel plus two optional callbacks and
  a \<^verbatim>\<open>sync.WaitGroup\<close>. The channel is modelled by its queue of buffered elements
  (the head is received first), its capacity and its closed flag. Only the channel
  operations that the package performs are modelled:
  \<^item> \<^verbatim>\<open>make(chan T, size)\<close>, which panics on a negative size (limits of the
    allocator for very large sizes are outside this model);
  \<^item> a receive and a send inside a \<^verbatim>\<open>select\<close> with a \<^verbatim>\<open>default\<close> case;
  \<^item> \<^verbatim>\<open>close(c)\<close>;
  \<^item> the blocking receive of \<^verbatim>\<open>for v := range c\<close>.

  No goroutine of the package ever waits in a receive or a send on an open channel, so a
  send can only go to the buffer: with capacity 0 it always takes the \<^verbatim>\<open>default\<close>
  case.
\<close>

datatype panic =
    MakechanSizeOutOfRange
  | SendOnClosedChannel
  | CloseOfClosedChannel
  | NilFuncCall
  | NegativeWaitGroupCounter

text \<open>
  An operation that does not return its result either panics, or cannot proceed at this
  moment: \<open>Blocked\<close> is a caller that waits, \<open>NoSuchGoroutine\<close> a scheduler choice
  that names no pending goroutine.
\<close>

datatype fault = Panic panic | Blocked | NoSuchGoroutine

record 'a chan =
  chan_buf :: "'a list"
  chan_cap :: nat
  chan_closed :: bool

definition makechan :: "int \<Rightarrow> fault + 'a chan" where
  "makechan sz =
     (if sz < 0 then Inl (Panic MakechanSizeOutOfRange)
      else Inr \<lparr>chan_buf = [], chan_cap = nat sz, chan_closed = False\<rparr>)"

text \<open>
  \<^verbatim>\<open>select { case v := <-c: ...; default: ... }\<close>: \<open>None\<close> is the default case. A
  closed channel delivers what is left in its buffer and then the zero value of the
  element type, and is always ready.
\<close>

definition try_recv :: "'a::zero chan \<Rightarrow> ('a \<times> 'a chan) option" where
  "try_recv ch =
     (case chan_buf ch of
        v # vs \<Rightarrow> Some (v, ch\<lparr>chan_buf := vs\<rparr>)
      | [] \<Rightarrow> if chan_closed ch then Some (0, ch) else None)"

text \<open>
  \<^verbatim>\<open>select { case c <- v: ...; default: ... }\<close>: \<open>Inr None\<close> is the default case. A
  send on a closed channel panics, also inside a \<^verbatim>\<open>select\<close>.
\<close>

definition try_send :: "'a \<Rightarrow> 'a chan \<Rightarrow> fault + 'a chan option" where
  "try_send v ch =
     (if chan_closed ch then Inl (Panic SendOnClosedChannel)
      else if length (chan_buf ch) < chan_cap ch
        then Inr (Some (ch\<lparr>chan_buf := chan_buf ch @ [v]\<rparr>))
      else Inr None)"

definition close_chan :: "'a chan \<Rightarrow> fault + 'a chan" where
  "close_chan ch =
     (if chan_closed ch then Inl (Panic CloseOfClosedChannel)
      else Inr (ch\<lparr>chan_closed := True\<rparr>))"

section \<open>The pool\<close>

text \<open>
  \<^verbatim>\<open>Options[T]\<close>: both callbacks may be nil. The constructor is an impure Go
  function; it is modelled as the sequence of the values it returns, \<open>f k\<close> being the
  result of its \<open>k\<close>-th invocation (counted from 0). The destructor returns nothing:
  what the model keeps of it is the log of the instances it was invoked on.
\<close>

record 'a Options =
  NewFunc :: "(nat \<Rightarrow> 'a) option"
  CloseFunc :: "('a \<Rightarrow> unit) option"

text \<open>
  The struct \<^verbatim>\<open>pool[T]\<close> (fields \<open>p_c\<close>, \<open>p_new\<close>, \<open>p_close\<close>, \<open>p_wg\<close> for
  \<^verbatim>\<open>p.c\<close>, \<^verbatim>\<open>p.new\<close>, \<^verbatim>\<open>p.close\<close>, \<^verbatim>\<open>p.wg\<close>), together with the part of the
  runtime that the pool's behaviour is observed through:
  \<^item> \<open>newCalls\<close>: how often the constructor has been invoked;
  \<^item> \<open>goroutines\<close>: the goroutines started by \<^verbatim>\<open>maybeClose\<close> that have not run yet, each
    named by the instance it will destroy;
  \<^item> \<open>closeCalls\<close>: the instances the destructor has been invoked on, in order.
\<close>

record 'a pool =
  p_c :: "'a chan"
  p_new :: "(nat \<Rightarrow> 'a) option"
  p_close :: "('a \<Rightarrow> unit) option"
  p_wg :: int
  newCalls :: nat
  goroutines :: "'a list"
  closeCalls :: "'a list"

definition maybeNew :: "'a::zero pool \<Rightarrow> 'a \<times> 'a pool" where
  "maybeNew p =
     (case p_new p of
        Some f \<Rightarrow> (f (newCalls p), p\<lparr>newCalls := newCalls p + 1\<rparr>)
      | None \<Rightarrow> (0, p))"

text \<open>
  \<^verbatim>\<open>maybeClose\<close> adds 1 to the wait group and starts a goroutine; it does not run the
  destructor itself.
\<close>

definition maybeClose :: "'a \<Rightarrow> 'a pool \<Rightarrow> 'a pool" where
  "maybeClose v p =
     (if p_close p \<noteq> None
      then p\<lparr>p_wg := p_wg p + 1, goroutines := goroutines p @ [v]\<rparr>
      else p)"

definition Get :: "'a::zero pool \<Rightarrow> 'a \<times> 'a pool" where
  "Get p =
     (case try_recv (p_c p) of
        Some (v, ch) \<Rightarrow> (v, p\<lparr>p_c := ch\<rparr>)
      | None \<Rightarrow> maybeNew p)"

definition Put :: "'a \<Rightarrow> 'a pool \<Rightarrow> fault + 'a pool" where
  "Put v p =
     (case try_send v (p_c p) of
        Inl e \<Rightarrow> Inl e
      | Inr (Some ch) \<Rightarrow> Inr (p\<lparr>p_c := ch\<rparr>)
      | Inr None \<Rightarrow> Inr (maybeClose v p))"

text \<open>
  \<^verbatim>\<open>for v := range p.c { p.maybeClose(v) }\<close>: receive until the channel is closed and
  drained. On an open, empty channel the receive would wait.
\<close>

function range_loop :: "'a pool \<Rightarrow> fault + 'a pool" where
  "range_loop p =
     (case chan_buf (p_c p) of
        v # vs \<Rightarrow> range_loop (maybeClose v (p\<lparr>p_c := (p_c p)\<lparr>chan_buf := vs\<rparr>\<rparr>))
      | [] \<Rightarrow> if chan_closed (p_c p) then Inr p else Inl Blocked)"
  by pat_completeness auto
termination
  by (relation "measure (\<lambda>p. length (chan_buf (p_c p)))") (auto simp: maybeClose_def)

declare range_loop.simps [simp del]

text \<open>\<^verbatim>\<open>Close\<close> returns \<^verbatim>\<open>&p.wg\<close>, which is part of the pool state returned here.\<close>

definition Close :: "'a pool \<Rightarrow> fault + 'a pool" where
  "Close p =
     (case close_chan (p_c p) of
        Inl e \<Rightarrow> Inl e
      | Inr ch \<Rightarrow> range_loop (p\<lparr>p_c := ch\<rparr>))"

definition NewPool :: "int \<Rightarrow> 'a Options \<Rightarrow> fault + 'a pool" where
  "NewPool sz opt =
     (case makechan sz of
        Inl e \<Rightarrow> Inl e
      | Inr ch \<Rightarrow>
          Inr \<lparr>p_c = ch, p_new = NewFunc opt, p_close = CloseFunc opt, p_wg = 0,
               newCalls = 0, goroutines = [], closeCalls = []\<rparr>)"

subsection \<open>Goroutines and the wait group\<close>

text \<open>
  The goroutine started by \<^verbatim>\<open>maybeClose\<close> is
  \<^verbatim>\<open>func() { defer p.wg.Done(); p.close(v) }\<close>. The scheduler may run any pending
  goroutine at any moment: \<open>runGoroutine i\<close> runs the \<open>i\<close>-th pending one to its end.
  \<^verbatim>\<open>wg.Done()\<close> panics when the counter would become negative.
\<close>

definition runGoroutine :: "nat \<Rightarrow> 'a pool \<Rightarrow> fault + 'a pool" where
  "runGoroutine i p =
     (if i < length (goroutines p) then
        (case p_close p of
           None \<Rightarrow> Inl (Panic NilFuncCall)
         | Some f \<Rightarrow>
             if p_wg p - 1 < 0 then Inl (Panic NegativeWaitGroupCounter)
             else Inr (p\<lparr>p_wg := p_wg p - 1,
                         goroutines := take i (goroutines p) @ drop (Suc i) (goroutines p),
                         closeCalls := closeCalls p @ [goroutines p ! i]\<rparr>))
      else Inl NoSuchGoroutine)"

text \<open>\<^verbatim>\<open>wg.Wait()\<close> returns once the counter is zero; until then the caller waits.\<close>

definition Wait :: "'a pool \<Rightarrow> fault + 'a pool" where
  "Wait p = (if p_wg p = 0 then Inr p else Inl Blocked)"

subsection \<open>The resetting pool\<close>

text \<open>
  \<^verbatim>\<open>resetPool[T]\<close> embeds a \<^verbatim>\<open>Pool[T]\<close>; \<^verbatim>\<open>NewResetterPool\<close> puts the pool of
  \<^verbatim>\<open>NewPool\<close> there. \<^verbatim>\<open>Get\<close> and \<^verbatim>\<open>Close\<close> are the promoted methods of the embedded
  pool. \<^verbatim>\<open>v.Reset()\<close> is a method of the element type: it cannot change the value \<open>v\<close>
  that \<^verbatim>\<open>Put\<close> holds (for \<^verbatim>\<open>*bytes.Buffer\<close>, a pointer), it changes what \<open>v\<close>
  refers to. So the method is a parameter \<open>Reset :: 'a \<Rightarrow> 'h \<Rightarrow> 'h\<close> acting on a heap
  \<open>'h\<close>, and \<^verbatim>\<open>resetPool.Put\<close> returns the heap after \<^verbatim>\<open>v.Reset()\<close> together with the
  outcome of the embedded pool's \<^verbatim>\<open>Put\<close>.
\<close>

record 'a resetPool =
  Pool :: "'a pool"

definition resetPool_Put ::
  "('a \<Rightarrow> 'h \<Rightarrow> 'h) \<Rightarrow> 'a \<Rightarrow> 'h \<Rightarrow> 'a resetPool \<Rightarrow> 'h \<times> (fault + 'a resetPool)" where
  "resetPool_Put Reset v h rp =
     (let h' = Reset v h
      in (h', case Put v (Pool rp) of
                Inl e \<Rightarrow> Inl e
              | Inr p' \<Rightarrow> Inr (rp\<lparr>Pool := p'\<rparr>)))"

definition resetPool_Get :: "'a::zero resetPool \<Rightarrow> 'a \<times> 'a resetPool" where
  "resetPool_Get rp = (case Get (Pool rp) of (v, p') \<Rightarrow> (v, rp\<lparr>Pool := p'\<rparr>))"

definition resetPool_Close :: "'a resetPool \<Rightarrow> fault + 'a resetPool" where
  "resetPool_Close rp =
     (case Close (Pool rp) of Inl e \<Rightarrow> Inl e | Inr p' \<Rightarrow> Inr (rp\<lparr>Pool := p'\<rparr>))"

definition NewResetterPool :: "int \<Rightarrow> 'a Options \<Rightarrow> fault + 'a resetPool" where
  "NewResetterPool sz opt =
     (case NewPool sz opt of Inl e \<Rightarrow> Inl e | Inr p \<Rightarrow> Inr \<lparr>Pool = p\<rparr>)"

section \<open>Sequences of calls\<close>

text \<open>
  A run of a program that uses one pool from one goroutine: the calls it makes, in order,
  with the steps of the scheduler between them (\<open>Sched i\<close> runs the \<open>i\<close>-th pending
  destructor goroutine). \<open>exec\<close> returns the values the \<^verbatim>\<open>Get\<close> calls returned, in
  order, and the final state; it stops at the first call that does not return.
\<close>

datatype 'a op = OpGet | OpPut 'a | OpClose | OpWait | Sched nat

fun step :: "'a::zero op \<Rightarrow> 'a pool \<Rightarrow> fault + ('a list \<times> 'a pool)" where
  "step OpGet p = (case Get p of (v, p') \<Rightarrow> Inr ([v], p'))"
| "step (OpPut v) p = (case Put v p of Inl e \<Rightarrow> Inl e | Inr p' \<Rightarrow> Inr ([], p'))"
| "step OpClose p = (case Close p of Inl e \<Rightarrow> Inl e | Inr p' \<Rightarrow> Inr ([], p'))"
| "step OpWait p = (case Wait p of Inl e \<Rightarrow> Inl e | Inr p' \<Rightarrow> Inr ([], p'))"
| "step (Sched i) p = (case runGoroutine i p of Inl e \<Rightarrow> Inl e | Inr p' \<Rightarrow> Inr ([], p'))"

fun exec :: "'a::zero op list \<Rightarrow> 'a pool \<Rightarrow> fault + ('a list \<times> 'a pool)" where
  "exec [] p = Inr ([], p)"
| "exec (a # as) p =
     (case step a p of
        Inl e \<Rightarrow> Inl e
      | Inr (rs, p') \<Rightarrow>
          (case exec as p' of
             Inl e \<Rightarrow> Inl e
           | Inr (rs', p'') \<Rightarrow> Inr (rs @ rs', p'')))"

text \<open>The vocabulary of the properties: kinds of steps, and the calls of a run.\<close>

fun is_Sched :: "'a op \<Rightarrow> bool" where
  "is_Sched (Sched i) = True"
| "is_Sched _ = False"

fun is_GetPut :: "'a op \<Rightarrow> bool" where
  "is_GetPut OpGet = True"
| "is_GetPut (OpPut v) = True"
| "is_GetPut _ = False"

definition calls :: "'a op list \<Rightarrow> 'a op list" where
  "calls ops = filter (\<lambda>a. \<not> is_Sched a) ops"

text \<open>
  The instances that overflowed in a run: the arguments of the \<^verbatim>\<open>Put\<close> calls that found
  the store full.
\<close>

fun overflow :: "'a op \<Rightarrow> 'a pool \<Rightarrow> 'a list" where
  "overflow (OpPut v) p = (if length (chan_buf (p_c p)) < chan_cap (p_c p) then [] else [v])"
| "overflow _ p = []"

fun overflowed :: "'a::zero pool \<Rightarrow> 'a op list \<Rightarrow> 'a list" where
  "overflowed p [] = []"
| "overflowed p (a # as) =
     (case step a p of
        Inl e \<Rightarrow> []
      | Inr (rs, p') \<Rightarrow> overflow a p @ overflowed p' as)"

text \<open>
  The states a pool is in between calls: the buffer within its capacity, a closed channel
  drained, the wait group counting the pending goroutines, which exist only when there is
  a destructor.
\<close>

definition pool_inv :: "'a pool \<Rightarrow> bool" where
  "pool_inv p \<longleftrightarrow>
     length (chan_buf (p_c p)) \<le> chan_cap (p_c p) \<and>
     (chan_closed (p_c p) \<longrightarrow> chan_buf (p_c p) = []) \<and>
     p_wg p = int (length (goroutines p)) \<and>
     (p_close p = None \<longrightarrow> goroutines p = [])"

text \<open>
  Two states that differ only in how far the scheduler has got with the destructor
  goroutines: the calls of the program cannot tell them apart.
\<close>

definition sched_equiv :: "'a pool \<Rightarrow> 'a pool \<Rightarrow> bool" where
  "sched_equiv p q \<longleftrightarrow>
     p_c p = p_c q \<and> p_new p = p_new q \<and> p_close p = p_close q \<and> newCalls p = newCalls q \<and>
     mset (closeCalls p) + mset (goroutines p) = mset (closeCalls q) + mset (goroutines q)"

text \<open>A run on a fresh pool.\<close>

definition run :: "int \<Rightarrow> 'a::zero Options \<Rightarrow> 'a op list \<Rightarrow> fault + ('a list \<times> 'a pool)" where
  "run sz opt ops = (case NewPool sz opt of Inl e \<Rightarrow> Inl e | Inr p \<Rightarrow> exec ops p)"

text \<open>
  The options of \<^verbatim>\<open>TestPool\<close> in \<^verbatim>\<open>gpool_test.go\<close>: the constructor makes a new
  channel at each call, never nil, and the destructor closes it. With the instances
  numbered from 1 and 0 for nil, the \<open>k\<close>-th call of the constructor returns \<open>Suc k\<close>.
\<close>

definition TestPool_options :: "nat Options" where
  "TestPool_options = \<lparr>NewFunc = Some Suc, CloseFunc = Some (\<lambda>v. ())\<rparr>"

text \<open>
  The element type of \<^verbatim>\<open>Test_resetPool\<close> is \<^verbatim>\<open>*bytes.Buffer\<close>, of the standard library.
  As far as the test observes it, a buffer is its contents and the capacity of its
  storage; the heap maps addresses to buffers, address 0 being nil. \<^verbatim>\<open>WriteString\<close>
  appends and lets the storage grow at least as far as needed (the library may allocate
  more, which the test does not look at), \<^verbatim>\<open>Reset\<close> empties the contents and keeps
  the storage.
\<close>

record buffer =
  buf_bytes :: string
  buf_cap :: nat

definition Buffer_WriteString :: "string \<Rightarrow> nat \<Rightarrow> (nat \<Rightarrow> buffer) \<Rightarrow> (nat \<Rightarrow> buffer)" where
  "Buffer_WriteString s b h =
     h(b := \<lparr>buf_bytes = buf_bytes (h b) @ s,
              buf_cap = max (buf_cap (h b)) (length (buf_bytes (h b)) + length s)\<rparr>)"

definition Buffer_Reset :: "nat \<Rightarrow> (nat \<Rightarrow> buffer) \<Rightarrow> (nat \<Rightarrow> buffer)" where
  "Buffer_Reset b h = h(b := (h b)\<lparr>buf_bytes := []\<rparr>)"

definition Buffer_Len :: "nat \<Rightarrow> (nat \<Rightarrow> buffer) \<Rightarrow> nat" where
  "Buffer_Len b h = length (buf_bytes (h b))"

definition Buffer_Cap :: "nat \<Rightarrow> (nat \<Rightarrow> buffer) \<Rightarrow> nat" where
  "Buffer_Cap b h = buf_cap (h b)"

section \<open>Single calls\<close>

lemma NewPool_Inr:
  "NewPool sz opt = Inr p \<longleftrightarrow>
     0 \<le> sz \<and>
     p = \<lparr>p_c = \<lparr>chan_buf = [], chan_cap = nat sz, chan_closed = False\<rparr>,
          p_new = NewFunc opt, p_close = CloseFunc opt, p_wg = 0,
          newCalls = 0, goroutines = [], closeCalls = []\<rparr>"
  by (auto simp: NewPool_def makechan_def)

lemma NewPool_inv: "NewPool sz opt = Inr p \<Longrightarrow> pool_inv p"
  by (auto simp: NewPool_Inr pool_inv_def)

lemma Get_nonempty:
  "chan_buf (p_c p) = v # vs \<Longrightarrow> Get p = (v, p\<lparr>p_c := (p_c p)\<lparr>chan_buf := vs\<rparr>\<rparr>)"
  by (simp add: Get_def try_recv_def)

lemma Get_empty_open:
  "chan_buf (p_c p) = [] \<Longrightarrow> \<not> chan_closed (p_c p) \<Longrightarrow> Get p = maybeNew p"
  by (simp add: Get_def try_recv_def)

lemma Get_empty_closed:
  "chan_buf (p_c p) = [] \<Longrightarrow> chan_closed (p_c p) \<Longrightarrow> Get p = (0, p)"
  by (simp add: Get_def try_recv_def)

lemma Put_closed: "chan_closed (p_c p) \<Longrightarrow> Put v p = Inl (Panic SendOnClosedChannel)"
  by (simp add: Put_def try_send_def)

lemma Put_room:
  "\<not> chan_closed (p_c p) \<Longrightarrow> length (chan_buf (p_c p)) < chan_cap (p_c p) \<Longrightarrow>
   Put v p = Inr (p\<lparr>p_c := (p_c p)\<lparr>chan_buf := chan_buf (p_c p) @ [v]\<rparr>\<rparr>)"
  by (simp add: Put_def try_send_def)

lemma Put_full:
  "\<not> chan_closed (p_c p) \<Longrightarrow> \<not> length (chan_buf (p_c p)) < chan_cap (p_c p) \<Longrightarrow>
   Put v p = Inr (maybeClose v p)"
  by (simp add: Put_def try_send_def)

lemma range_loop_closed:
  "chan_closed (p_c p) \<Longrightarrow>
   range_loop p =
     Inr (if p_close p \<noteq> None
          then p\<lparr>p_c := (p_c p)\<lparr>chan_buf := []\<rparr>,
                 p_wg := p_wg p + int (length (chan_buf (p_c p))),
                 goroutines := goroutines p @ chan_buf (p_c p)\<rparr>
          else p\<lparr>p_c := (p_c p)\<lparr>chan_buf := []\<rparr>\<rparr>)"
proof (induction p rule: range_loop.induct)
  case (1 p)
  show ?case
  proof (cases "chan_buf (p_c p)")
    case Nil
    with "1.prems" show ?thesis
      by (subst range_loop.simps) simp
  next
    case (Cons v vs)
    let ?q = "maybeClose v (p\<lparr>p_c := (p_c p)\<lparr>chan_buf := vs\<rparr>\<rparr>)"
    have "chan_closed (p_c ?q)"
      using "1.prems" by (simp add: maybeClose_def)
    from "1.IH" [OF Cons this] Cons show ?thesis
      by (subst range_loop.simps) (simp add: maybeClose_def)
  qed
qed

lemma Close_closed: "chan_closed (p_c p) \<Longrightarrow> Close p = Inl (Panic CloseOfClosedChannel)"
  by (simp add: Close_def close_chan_def)

lemma Close_open:
  "\<not> chan_closed (p_c p) \<Longrightarrow>
   Close p =
     Inr (if p_close p \<noteq> None
          then p\<lparr>p_c := (p_c p)\<lparr>chan_buf := [], chan_closed := True\<rparr>,
                 p_wg := p_wg p + int (length (chan_buf (p_c p))),
                 goroutines := goroutines p @ chan_buf (p_c p)\<rparr>
          else p\<lparr>p_c := (p_c p)\<lparr>chan_buf := [], chan_closed := True\<rparr>\<rparr>)"
  by (simp add: Close_def close_chan_def range_loop_closed)

section \<open>Runs\<close>

lemma exec_append:
  "exec (as @ bs) p =
     (case exec as p of
        Inl e \<Rightarrow> Inl e
      | Inr (rs, p') \<Rightarrow>
          (case exec bs p' of
             Inl e \<Rightarrow> Inl e
           | Inr (rs', p'') \<Rightarrow> Inr (rs @ rs', p'')))"
  by (induction as arbitrary: p) (auto split: sum.splits)

lemma Close_Inr:
  "Close p = Inr p' \<longleftrightarrow>
     \<not> chan_closed (p_c p) \<and>
     p' = (if p_close p \<noteq> None
           then p\<lparr>p_c := (p_c p)\<lparr>chan_buf := [], chan_closed := True\<rparr>,
                  p_wg := p_wg p + int (length (chan_buf (p_c p))),
                  goroutines := goroutines p @ chan_buf (p_c p)\<rparr>
           else p\<lparr>p_c := (p_c p)\<lparr>chan_buf := [], chan_closed := True\<rparr>\<rparr>)"
  by (cases "chan_closed (p_c p)") (auto simp: Close_closed Close_open)

lemma step_inv: "pool_inv p \<Longrightarrow> step a p = Inr (rs, p') \<Longrightarrow> pool_inv p'"
proof (cases a)
  case OpGet
  assume "pool_inv p" "step a p = Inr (rs, p')"
  with OpGet show ?thesis
    by (auto simp: pool_inv_def Get_def try_recv_def maybeNew_def
        split: list.splits if_splits option.splits)
next
  case (OpPut v)
  assume "pool_inv p" "step a p = Inr (rs, p')"
  with OpPut show ?thesis
    by (auto simp: pool_inv_def Put_def try_send_def maybeClose_def
        split: if_splits sum.splits)
next
  case OpClose
  assume "pool_inv p" "step a p = Inr (rs, p')"
  with OpClose show ?thesis
    by (auto simp: pool_inv_def Close_Inr split: sum.splits)
next
  case OpWait
  assume "pool_inv p" "step a p = Inr (rs, p')"
  with OpWait show ?thesis
    by (auto simp: Wait_def split: if_splits)
next
  case (Sched i)
  assume "pool_inv p" "step a p = Inr (rs, p')"
  with Sched show ?thesis
    by (auto simp: pool_inv_def runGoroutine_def split: if_splits option.splits)
qed

lemma step_fixed:
  "step a p = Inr (rs, p') \<Longrightarrow>
   chan_cap (p_c p') = chan_cap (p_c p) \<and> p_new p' = p_new p \<and> p_close p' = p_close p"
  apply (cases a)
  apply (auto simp: Get_def try_recv_def maybeNew_def Put_def try_send_def maybeClose_def
      Close_Inr Wait_def runGoroutine_def
      split: list.splits if_splits option.splits sum.splits)
  done

lemma exec_Cons_Inr:
  "exec (a # as) p = Inr (rs, p'') \<longleftrightarrow>
     (\<exists>r1 p' r2. step a p = Inr (r1, p') \<and> exec as p' = Inr (r2, p'') \<and> rs = r1 @ r2)"
  by (auto split: sum.splits)

lemma exec_inv: "pool_inv p \<Longrightarrow> exec ops p = Inr (rs, p') \<Longrightarrow> pool_inv p'"
proof (induction ops arbitrary: p rs)
  case Nil
  then show ?case by simp
next
  case (Cons a as)
  from Cons.prems(2) obtain r1 q r2 where
    "step a p = Inr (r1, q)" "exec as q = Inr (r2, p')"
    unfolding exec_Cons_Inr by blast
  with Cons.IH Cons.prems(1) show ?case
    by (blast dest: step_inv)
qed

lemma exec_fixed:
  "exec ops p = Inr (rs, p') \<Longrightarrow>
   chan_cap (p_c p') = chan_cap (p_c p) \<and> p_new p' = p_new p \<and> p_close p' = p_close p"
proof (induction ops arbitrary: p rs)
  case Nil
  then show ?case by simp
next
  case (Cons a as)
  from Cons.prems obtain r1 q r2 where
    "step a p = Inr (r1, q)" "exec as q = Inr (r2, p')"
    unfolding exec_Cons_Inr by blast
  with Cons.IH [of q r2] step_fixed [of a p r1 q] show ?case
    by simp
qed

lemma exec_puts:
  "\<not> chan_closed (p_c p) \<Longrightarrow> length (chan_buf (p_c p)) \<le> chan_cap (p_c p) \<Longrightarrow>
   exec (map OpPut vs) p =
     Inr ([], p\<lparr>p_c := (p_c p)\<lparr>chan_buf := take (chan_cap (p_c p)) (chan_buf (p_c p) @ vs)\<rparr>,
                p_wg := p_wg p + (if p_close p \<noteq> None
                  then int (length (drop (chan_cap (p_c p) - length (chan_buf (p_c p))) vs)) else 0),
                goroutines := goroutines p @ (if p_close p \<noteq> None
                  then drop (chan_cap (p_c p) - length (chan_buf (p_c p))) vs else [])\<rparr>)"
proof (induction vs arbitrary: p)
  case Nil
  then show ?case by simp
next
  case (Cons v vs)
  show ?case
  proof (cases "length (chan_buf (p_c p)) < chan_cap (p_c p)")
    case True
    let ?q = "p\<lparr>p_c := (p_c p)\<lparr>chan_buf := chan_buf (p_c p) @ [v]\<rparr>\<rparr>"
    have "Put v p = Inr ?q"
      using Cons.prems True by (simp add: Put_room)
    moreover have "\<not> chan_closed (p_c ?q)" "length (chan_buf (p_c ?q)) \<le> chan_cap (p_c ?q)"
      using Cons.prems True by simp_all
    note Cons.IH [OF this]
    moreover have "chan_cap (p_c p) - length (chan_buf (p_c p)) =
        Suc (chan_cap (p_c p) - Suc (length (chan_buf (p_c p))))"
      using True by simp
    ultimately show ?thesis
      using True by simp
  next
    case False
    let ?q = "maybeClose v p"
    have "Put v p = Inr ?q"
      using Cons.prems False by (simp add: Put_full)
    moreover have "\<not> chan_closed (p_c ?q)" "length (chan_buf (p_c ?q)) \<le> chan_cap (p_c ?q)"
      using Cons.prems by (simp_all add: maybeClose_def)
    note Cons.IH [OF this]
    ultimately show ?thesis
      using False Cons.prems by (simp add: maybeClose_def)
  qed
qed

lemma exec_gets_stored:
  "k \<le> length (chan_buf (p_c p)) \<Longrightarrow>
   exec (replicate k OpGet) p =
     Inr (take k (chan_buf (p_c p)), p\<lparr>p_c := (p_c p)\<lparr>chan_buf := drop k (chan_buf (p_c p))\<rparr>\<rparr>)"
proof (induction k arbitrary: p)
  case 0
  then show ?case by simp
next
  case (Suc k)
  then obtain v vs where buf: "chan_buf (p_c p) = v # vs"
    by (cases "chan_buf (p_c p)") auto
  let ?q = "p\<lparr>p_c := (p_c p)\<lparr>chan_buf := vs\<rparr>\<rparr>"
  have "k \<le> length (chan_buf (p_c ?q))"
    using Suc.prems buf by simp
  from Suc.IH [OF this] buf show ?case
    by (simp add: Get_nonempty)
qed

lemma exec_gets_new:
  "chan_buf (p_c p) = [] \<Longrightarrow> \<not> chan_closed (p_c p) \<Longrightarrow> p_new p = Some f \<Longrightarrow>
   exec (replicate n OpGet) p =
     Inr (map f [newCalls p ..< newCalls p + n], p\<lparr>newCalls := newCalls p + n\<rparr>)"
proof (induction n arbitrary: p)
  case 0
  then show ?case by simp
next
  case (Suc n)
  let ?q = "p\<lparr>newCalls := newCalls p + 1\<rparr>"
  have "Get p = (f (newCalls p), ?q)"
    using Suc.prems by (simp add: Get_empty_open maybeNew_def)
  moreover have "chan_buf (p_c ?q) = []" "\<not> chan_closed (p_c ?q)" "p_new ?q = Some f"
    using Suc.prems by simp_all
  note Suc.IH [OF this]
  moreover have "[newCalls p ..< newCalls p + Suc n] =
      newCalls p # [newCalls ?q ..< newCalls ?q + n]"
    by (simp add: upt_conv_Cons del: upt_Suc)
  ultimately show ?case
    by (simp del: upt_Suc)
qed

lemma mset_remove_nth:
  "i < length xs \<Longrightarrow> mset (take i xs) + mset (drop (Suc i) xs) + {#xs ! i#} = mset xs"
  by (subst (4) id_take_nth_drop [of i xs]) simp_all

text \<open>What a run leaves of the destructions: those done and those pending, together.\<close>

lemma runGoroutine_Inr:
  "runGoroutine i p = Inr p' \<Longrightarrow>
   p_c p' = p_c p \<and> p_new p' = p_new p \<and> p_close p' = p_close p \<and> newCalls p' = newCalls p \<and>
   mset (closeCalls p') + mset (goroutines p') = mset (closeCalls p) + mset (goroutines p)"
  using mset_remove_nth [of i "goroutines p"]
  by (auto simp: runGoroutine_def split: if_splits option.splits)

lemma exec_run_pending:
  "pool_inv p \<Longrightarrow>
   exec (replicate (length (goroutines p)) (Sched 0)) p =
     Inr ([], p\<lparr>p_wg := 0, goroutines := [], closeCalls := closeCalls p @ goroutines p\<rparr>)"
proof (induction "goroutines p" arbitrary: p)
  case Nil
  then show ?case by (simp add: pool_inv_def)
next
  case (Cons v vs)
  from Cons.prems Cons.hyps(2) obtain f where f: "p_close p = Some f"
    by (auto simp: pool_inv_def)
  let ?q = "p\<lparr>p_wg := p_wg p - 1, goroutines := vs, closeCalls := closeCalls p @ [v]\<rparr>"
  have wg: "p_wg p = 1 + int (length vs)"
    using Cons.prems Cons.hyps(2) [symmetric] by (simp add: pool_inv_def)
  have "runGoroutine 0 p = Inr ?q"
    using Cons.hyps(2) [symmetric] f wg by (simp add: runGoroutine_def)
  moreover have "vs = goroutines ?q" "pool_inv ?q"
    using Cons.prems Cons.hyps(2) [symmetric] f by (simp_all add: pool_inv_def)
  note Cons.hyps(1) [OF this]
  ultimately show ?case
    using Cons.hyps(2) [symmetric] by simp
qed

subsection \<open>After \<^verbatim>\<open>Close\<close>\<close>

lemma step_after_Close:
  assumes "chan_closed (p_c p)" "chan_buf (p_c p) = []" "step a p = Inr (rs, p')"
  shows "chan_closed (p_c p') \<and> chan_buf (p_c p') = [] \<and> newCalls p' = newCalls p \<and>
         set rs \<subseteq> {0}"
proof (cases a)
  case OpGet
  with assms show ?thesis by (simp add: Get_empty_closed) auto
next
  case (OpPut v)
  with assms show ?thesis by (simp add: Put_closed)
next
  case OpClose
  with assms show ?thesis by (simp add: Close_closed)
next
  case OpWait
  with assms(3) have "p' = p" "rs = []"
    by (simp_all add: Wait_def split: if_splits)
  with assms(1,2) show ?thesis by simp
next
  case (Sched i)
  with assms(3) have "runGoroutine i p = Inr p'" "rs = []"
    by (simp_all split: sum.splits)
  with assms(1,2) runGoroutine_Inr [of i p p'] show ?thesis by simp
qed

lemma exec_after_Close:
  "chan_closed (p_c p) \<Longrightarrow> chan_buf (p_c p) = [] \<Longrightarrow> exec ops p = Inr (rs, p') \<Longrightarrow>
   chan_closed (p_c p') \<and> chan_buf (p_c p') = [] \<and> newCalls p' = newCalls p \<and> set rs \<subseteq> {0}"
proof (induction ops arbitrary: p rs)
  case Nil
  then show ?case by simp
next
  case (Cons a as)
  from Cons.prems(3) obtain r1 q r2 where
    run: "step a p = Inr (r1, q)" "exec as q = Inr (r2, p')" "rs = r1 @ r2"
    unfolding exec_Cons_Inr by blast
  note q = step_after_Close [OF Cons.prems(1,2) run(1)]
  with Cons.IH [of q r2] run(2,3) show ?case
    by simp
qed

lemma Close_Inr_closed:
  assumes "Close p = Inr p1"
  shows "chan_closed (p_c p1) \<and> chan_buf (p_c p1) = [] \<and> newCalls p1 = newCalls p"
proof (cases "p_close p = None")
  case True
  with assms show ?thesis by (simp add: Close_Inr)
next
  case False
  with assms show ?thesis by (simp add: Close_Inr)
qed

subsection \<open>Destructions done and pending\<close>

lemma exec_append_Inr:
  "exec (as @ bs) p = Inr (rs, s) \<longleftrightarrow>
     (\<exists>r1 q r2. exec as p = Inr (r1, q) \<and> exec bs q = Inr (r2, s) \<and> rs = r1 @ r2)"
  by (auto simp: exec_append split: sum.splits)

lemma step_Sched:
  assumes "is_Sched a" "step a p = Inr (rs, p')"
  shows "rs = [] \<and> p_c p' = p_c p \<and> p_new p' = p_new p \<and> p_close p' = p_close p \<and>
         newCalls p' = newCalls p \<and>
         mset (closeCalls p') + mset (goroutines p') = mset (closeCalls p) + mset (goroutines p)"
proof -
  from assms(1) obtain i where "a = Sched i"
    by (cases a) simp_all
  with assms(2) have "runGoroutine i p = Inr p'" "rs = []"
    by (simp_all split: sum.splits)
  with runGoroutine_Inr [of i p p'] show ?thesis by simp
qed

lemma exec_Sched:
  "\<forall>a \<in> set sch. is_Sched a \<Longrightarrow> exec sch p = Inr (rs, p') \<Longrightarrow>
   rs = [] \<and> p_c p' = p_c p \<and> p_new p' = p_new p \<and> p_close p' = p_close p \<and>
   newCalls p' = newCalls p \<and>
   mset (closeCalls p') + mset (goroutines p') = mset (closeCalls p) + mset (goroutines p)"
proof (induction sch arbitrary: p rs)
  case Nil
  then show ?case by simp
next
  case (Cons a as)
  from Cons.prems(2) obtain r1 q r2 where
    run: "step a p = Inr (r1, q)" "exec as q = Inr (r2, p')" "rs = r1 @ r2"
    unfolding exec_Cons_Inr by blast
  from Cons.prems(1) have "is_Sched a" "\<forall>a \<in> set as. is_Sched a"
    by simp_all
  from step_Sched [OF this(1) run(1)] Cons.IH [OF this(2) run(2)] run(3) show ?case
    by simp
qed

lemma step_GetPut:
  assumes "is_GetPut a" "\<not> chan_closed (p_c p)" "step a p = Inr (rs, p')"
  shows "\<not> chan_closed (p_c p') \<and> closeCalls p' = closeCalls p \<and>
         goroutines p' = goroutines p @ (if p_close p = None then [] else overflow a p)"
proof (cases a)
  case OpGet
  with assms(3) have "Get p = (hd rs, p')"
    by (auto split: prod.splits)
  with assms(2) show ?thesis
    using OpGet by (auto simp: Get_def try_recv_def maybeNew_def split: list.splits option.splits)
next
  case (OpPut v)
  with assms(3) have put: "Put v p = Inr p'"
    by (simp split: sum.splits)
  show ?thesis
  proof (cases "length (chan_buf (p_c p)) < chan_cap (p_c p)")
    case True
    with put assms(2) OpPut show ?thesis by (auto simp: Put_room)
  next
    case False
    with put assms(2) OpPut show ?thesis by (auto simp: Put_full maybeClose_def)
  qed
qed (use assms(1) in simp_all)

lemma exec_account:
  "\<forall>a \<in> set ops. is_GetPut a \<or> is_Sched a \<Longrightarrow> \<not> chan_closed (p_c p) \<Longrightarrow>
   exec ops p = Inr (rs, p') \<Longrightarrow>
   \<not> chan_closed (p_c p') \<and>
   mset (closeCalls p') + mset (goroutines p') =
     mset (closeCalls p) + mset (goroutines p) +
     (if p_close p = None then {#} else mset (overflowed p ops))"
proof (induction ops arbitrary: p rs)
  case Nil
  then show ?case by simp
next
  case (Cons a as)
  from Cons.prems(3) obtain r1 q r2 where
    run: "step a p = Inr (r1, q)" "exec as q = Inr (r2, p')" "rs = r1 @ r2"
    unfolding exec_Cons_Inr by blast
  from Cons.prems(1) have as: "\<forall>a \<in> set as. is_GetPut a \<or> is_Sched a"
    by simp
  have q: "\<not> chan_closed (p_c q) \<and> p_close q = p_close p \<and>
      mset (closeCalls q) + mset (goroutines q) =
        mset (closeCalls p) + mset (goroutines p) +
        (if p_close p = None then {#} else mset (overflow a p))"
  proof (cases "is_Sched a")
    case True
    then have "overflow a p = []"
      by (cases a) simp_all
    with step_Sched [OF True run(1)] Cons.prems(2) show ?thesis by simp
  next
    case False
    with Cons.prems(1) have "is_GetPut a" by simp
    from step_GetPut [OF this Cons.prems(2) run(1)] step_fixed [OF run(1)] show ?thesis
      by simp
  qed
  with Cons.IH [OF as _ run(2)] run(1) show ?case
    by simp
qed


lemma Wait_Inr: "Wait p = Inr p' \<longleftrightarrow> p_wg p = 0 \<and> p' = p"
  by (auto simp: Wait_def)

lemma Close_Inr_account:
  assumes "Close p = Inr p1"
  shows "closeCalls p1 = closeCalls p \<and>
         goroutines p1 = goroutines p @ (if p_close p = None then [] else chan_buf (p_c p))"
proof (cases "p_close p = None")
  case True
  with assms show ?thesis by (simp add: Close_Inr)
next
  case False
  with assms show ?thesis by (auto simp: Close_Inr)
qed

subsection \<open>Runs without the scheduler's steps\<close>

text \<open>
  The scheduler's steps can be left out of a run without a \<^verbatim>\<open>Wait\<close>: the calls return
  the same values and end in the same state, up to the progress of the goroutines.
\<close>

lemma sched_equiv_refl: "sched_equiv p p"
  by (simp add: sched_equiv_def)

lemma step_call_equiv:
  assumes a: "\<not> is_Sched a" "a \<noteq> OpWait"
    and eq: "sched_equiv p q"
    and st: "step a p = Inr (rs, p')"
  shows "\<exists>q'. step a q = Inr (rs, q') \<and> sched_equiv p' q'"
proof (cases a)
  case OpGet
  show ?thesis
  proof (cases "chan_buf (p_c p)")
    case (Cons v vs)
    with eq have "chan_buf (p_c q) = v # vs"
      by (simp add: sched_equiv_def)
    with Cons st OpGet eq show ?thesis
      by (auto simp: Get_nonempty sched_equiv_def)
  next
    case Nil
    with eq have nil: "chan_buf (p_c q) = []"
      by (simp add: sched_equiv_def)
    show ?thesis
    proof (cases "chan_closed (p_c p)")
      case True
      with eq have "chan_closed (p_c q)"
        by (simp add: sched_equiv_def)
      with True Nil nil st OpGet eq show ?thesis
        by (auto simp: Get_empty_closed)
    next
      case False
      with eq have "\<not> chan_closed (p_c q)"
        by (simp add: sched_equiv_def)
      with False Nil nil st OpGet eq show ?thesis
        by (auto simp: Get_empty_open maybeNew_def sched_equiv_def split: option.splits)
    qed
  qed
next
  case (OpPut v)
  with st have put: "Put v p = Inr p'" "rs = []"
    by (simp_all split: sum.splits)
  then have op: "\<not> chan_closed (p_c p)"
    by (auto simp: Put_closed)
  with eq have oq: "\<not> chan_closed (p_c q)"
    by (simp add: sched_equiv_def)
  show ?thesis
  proof (cases "length (chan_buf (p_c p)) < chan_cap (p_c p)")
    case True
    with eq have "length (chan_buf (p_c q)) < chan_cap (p_c q)"
      by (simp add: sched_equiv_def)
    with True op oq put OpPut eq show ?thesis
      by (auto simp: Put_room sched_equiv_def)
  next
    case False
    with eq have "\<not> length (chan_buf (p_c q)) < chan_cap (p_c q)"
      by (simp add: sched_equiv_def)
    with False op oq put OpPut eq show ?thesis
      by (auto simp: Put_full maybeClose_def sched_equiv_def)
  qed
next
  case OpClose
  with st have cl: "Close p = Inr p'" "rs = []"
    by (simp_all split: sum.splits)
  then have op: "\<not> chan_closed (p_c p)"
    by (simp add: Close_Inr)
  with eq have oq: "\<not> chan_closed (p_c q)"
    by (simp add: sched_equiv_def)
  from cl(1) op eq have "\<exists>q'. Close q = Inr q' \<and> sched_equiv p' q'"
    by (cases "p_close p = None") (auto simp: Close_open oq sched_equiv_def)
  with cl(2) OpClose show ?thesis
    by auto
qed (use a in simp_all)

lemma step_Sched_equiv:
  "is_Sched a \<Longrightarrow> sched_equiv p q \<Longrightarrow> step a p = Inr (rs, p') \<Longrightarrow>
   rs = [] \<and> sched_equiv p' q"
  using step_Sched [of a p rs p'] by (simp add: sched_equiv_def)

lemma Wait_in_calls: "OpWait \<in> set ops \<Longrightarrow> OpWait \<in> set (calls ops)"
  by (simp add: calls_def)

lemma exec_calls:
  "OpWait \<notin> set (calls ops) \<Longrightarrow> sched_equiv p q \<Longrightarrow> exec ops p = Inr (rs, p') \<Longrightarrow>
   \<exists>q'. exec (calls ops) q = Inr (rs, q') \<and> sched_equiv p' q'"
proof (induction ops arbitrary: p q rs)
  case Nil
  then show ?case by (simp add: calls_def)
next
  case (Cons a as)
  from Cons.prems(3) obtain r1 p1 r2 where
    run: "step a p = Inr (r1, p1)" "exec as p1 = Inr (r2, p')" "rs = r1 @ r2"
    unfolding exec_Cons_Inr by blast
  show ?case
  proof (cases "is_Sched a")
    case True
    from step_Sched_equiv [OF True Cons.prems(2) run(1)]
    have "r1 = []" "sched_equiv p1 q" by simp_all
    moreover from True Cons.prems(1) have "OpWait \<notin> set (calls as)" "calls (a # as) = calls as"
      by (simp_all add: calls_def)
    ultimately show ?thesis
      using Cons.IH [of p1 q r2] run(2,3) by simp
  next
    case False
    with Cons.prems(1) have a: "a \<noteq> OpWait" "OpWait \<notin> set (calls as)"
        "calls (a # as) = a # calls as"
      by (auto simp: calls_def)
    from step_call_equiv [OF False a(1) Cons.prems(2) run(1)]
    obtain q1 where q1: "step a q = Inr (r1, q1)" "sched_equiv p1 q1"
      by blast
    from Cons.IH [OF a(2) q1(2) run(2)]
    obtain q' where "exec (calls as) q1 = Inr (r2, q')" "sched_equiv p' q'"
      by blast
    with q1(1) run(3) a(3) show ?thesis
      by simp
  qed
qed

subsection \<open>Before \<^verbatim>\<open>Close\<close>\<close>

lemma step_not_Close:
  assumes "a \<noteq> OpClose" "step a p = Inr (rs, p')"
  shows "chan_closed (p_c p') = chan_closed (p_c p)"
proof (cases a)
  case OpGet
  with assms(2) show ?thesis
    by (auto simp: Get_def try_recv_def maybeNew_def split: list.splits option.splits if_splits)
next
  case (OpPut v)
  with assms(2) show ?thesis
    by (auto simp: Put_def try_send_def maybeClose_def split: if_splits)
next
  case OpWait
  with assms(2) show ?thesis
    by (auto simp: Wait_def split: if_splits)
next
  case (Sched i)
  with assms(2) have "is_Sched a" "step a p = Inr (rs, p')"
    by simp_all
  from step_Sched [OF this] show ?thesis by simp
qed (use assms(1) in simp)

lemma exec_not_Close:
  "OpClose \<notin> set ops \<Longrightarrow> exec ops p = Inr (rs, p') \<Longrightarrow>
   chan_closed (p_c p') = chan_closed (p_c p)"
proof (induction ops arbitrary: p rs)
  case Nil
  then show ?case by simp
next
  case (Cons a as)
  from Cons.prems(2) obtain r1 q r2 where
    run: "step a p = Inr (r1, q)" "exec as q = Inr (r2, p')"
    unfolding exec_Cons_Inr by blast
  from Cons.prems(1) have "a \<noteq> OpClose" "OpClose \<notin> set as"
    by auto
  from step_not_Close [OF this(1) run(1)] Cons.IH [OF this(2) run(2)] show ?case
    by simp
qed

lemma runGoroutine_no_panic: "pool_inv p \<Longrightarrow> runGoroutine i p \<noteq> Inl (Panic e)"
  by (auto simp: runGoroutine_def pool_inv_def split: option.splits)

subsection \<open>Phases of a run\<close>

text \<open>The phases of a run, with the scheduler's steps anywhere between the calls.\<close>

lemma run_gets_new:
  assumes c: "calls ops = replicate n OpGet" and r: "exec ops p = Inr (rs, s)"
    and p: "chan_buf (p_c p) = []" "\<not> chan_closed (p_c p)" "p_new p = Some f"
  shows "rs = map f [newCalls p ..< newCalls p + n] \<and> p_c s = p_c p \<and> p_new s = p_new p \<and>
         p_close s = p_close p \<and> newCalls s = newCalls p + n \<and>
         mset (closeCalls s) + mset (goroutines s) = mset (closeCalls p) + mset (goroutines p)"
proof -
  from c have "OpWait \<notin> set (calls ops)"
    by simp
  from exec_calls [OF this sched_equiv_refl r] c exec_gets_new [OF p, of n]
  show ?thesis
    by (auto simp: sched_equiv_def)
qed

lemma run_puts:
  assumes c: "calls ops = map OpPut vs" and r: "exec ops p = Inr (rs, s)"
    and p: "\<not> chan_closed (p_c p)" "length (chan_buf (p_c p)) \<le> chan_cap (p_c p)"
  shows "rs = [] \<and>
         p_c s = (p_c p)\<lparr>chan_buf := take (chan_cap (p_c p)) (chan_buf (p_c p) @ vs)\<rparr> \<and>
         p_new s = p_new p \<and> p_close s = p_close p \<and> newCalls s = newCalls p \<and>
         mset (closeCalls s) + mset (goroutines s) =
           mset (closeCalls p) + mset (goroutines p) +
           (if p_close p = None then {#}
            else mset (drop (chan_cap (p_c p) - length (chan_buf (p_c p))) vs))"
proof -
  from c have "OpWait \<notin> set (calls ops)"
    by auto
  from exec_calls [OF this sched_equiv_refl r] c exec_puts [OF p, of vs]
  show ?thesis
    by (auto simp: sched_equiv_def)
qed

lemma run_gets_stored:
  assumes c: "calls ops = replicate k OpGet" and r: "exec ops p = Inr (rs, s)"
    and k: "k \<le> length (chan_buf (p_c p))"
  shows "rs = take k (chan_buf (p_c p)) \<and>
         p_c s = (p_c p)\<lparr>chan_buf := drop k (chan_buf (p_c p))\<rparr> \<and>
         p_new s = p_new p \<and> p_close s = p_close p \<and> newCalls s = newCalls p \<and>
         mset (closeCalls s) + mset (goroutines s) = mset (closeCalls p) + mset (goroutines p)"
proof -
  from c have "OpWait \<notin> set (calls ops)"
    by simp
  from exec_calls [OF this sched_equiv_refl r] c exec_gets_stored [OF k]
  show ?thesis
    by (auto simp: sched_equiv_def)
qed

lemma run_Close_Wait:
  assumes c: "calls ops = [OpClose]" and r: "exec (ops @ [OpWait]) p = Inr (rs, s)"
    and inv: "pool_inv p"
  shows "rs = [] \<and> chan_buf (p_c s) = [] \<and> chan_closed (p_c s) \<and> goroutines s = [] \<and>
         newCalls s = newCalls p \<and>
         mset (closeCalls s) =
           mset (closeCalls p) + mset (goroutines p) +
           (if p_close p = None then {#} else mset (chan_buf (p_c p)))"
proof -
  from r obtain r1 q where q: "exec ops p = Inr (r1, q)" "Wait q = Inr s" "rs = r1"
    by (auto simp: exec_append_Inr split: sum.splits)
  then have eq: "s = q" "p_wg q = 0"
    by (simp_all add: Wait_Inr)
  have "pool_inv q"
    using inv q(1) by (rule exec_inv)
  with eq(2) have g: "goroutines q = []"
    by (simp add: pool_inv_def)
  from c have "OpWait \<notin> set (calls ops)"
    by simp
  from exec_calls [OF this sched_equiv_refl q(1)] c
  obtain q' where q': "Close p = Inr q'" "r1 = []" "sched_equiv q q'"
    by (auto split: sum.splits)
  from Close_Inr_closed [OF q'(1)] Close_Inr_account [OF q'(1)] q'(2,3) g eq(1) q(3)
  show ?thesis
    by (simp add: sched_equiv_def)
qed

subsection \<open>The scenario of the test\<close>

text \<open>
  The scenario of \<^verbatim>\<open>TestPool\<close> in \<^verbatim>\<open>gpool_test.go\<close>, for a capacity \<open>n\<close>: \<open>2n\<close> calls
  of \<^verbatim>\<open>Get\<close>, the instances got put back, \<open>n\<close> calls of \<^verbatim>\<open>Get\<close>, whose results the test
  puts back by deferred calls (so in reverse order), then \<^verbatim>\<open>Close().Wait()\<close>.
\<close>

lemma TestPool_phases:
  fixes f :: "nat \<Rightarrow> 'a::zero"
  assumes new: "NewPool (int n) \<lparr>NewFunc = Some f, CloseFunc = Some d\<rparr> = Inr p0"
    and A: "calls A = replicate (n + n) OpGet" "exec A p0 = Inr (r1, s1)"
    and B: "calls B = map OpPut r1" "exec B s1 = Inr (r2, s2)"
    and C: "calls C = replicate n OpGet" "exec C s2 = Inr (r3, s3)"
  shows "r1 = map f [0..<n + n]" "newCalls s1 = n + n"
    "chan_buf (p_c s2) = map f [0..<n]"
    "mset (closeCalls s2) + mset (goroutines s2) = mset (map f [n..<n + n])"
    "r3 = map f [0..<n]" "newCalls s3 = n + n" "chan_buf (p_c s3) = []"
    "mset (closeCalls s3) + mset (goroutines s3) = mset (map f [n..<n + n])"
    "\<not> chan_closed (p_c s3)" "chan_cap (p_c s3) = n" "p_close s3 = Some d" "pool_inv s3"
proof -
  from new have p0: "chan_buf (p_c p0) = []" "\<not> chan_closed (p_c p0)" "p_new p0 = Some f"
      "p_close p0 = Some d" "chan_cap (p_c p0) = n" "newCalls p0 = 0"
      "closeCalls p0 = []" "goroutines p0 = []"
    by (simp_all add: NewPool_Inr)
  note a = run_gets_new [OF A p0(1-3)]
  from a p0 show r1: "r1 = map f [0..<n + n]" and "newCalls s1 = n + n"
    by simp_all
  from a p0 have s1: "\<not> chan_closed (p_c s1)" "chan_buf (p_c s1) = []" "chan_cap (p_c s1) = n"
      "p_close s1 = Some d" "newCalls s1 = n + n"
      "mset (closeCalls s1) + mset (goroutines s1) = {#}"
    by simp_all
  then have "length (chan_buf (p_c s1)) \<le> chan_cap (p_c s1)"
    by simp
  note b = run_puts [OF B s1(1) this]
  from b s1 r1 show buf2: "chan_buf (p_c s2) = map f [0..<n]"
    by (simp add: take_map)
  from b s1 r1 show m2: "mset (closeCalls s2) + mset (goroutines s2) = mset (map f [n..<n + n])"
    by (simp add: drop_map)
  from b s1 have s2: "\<not> chan_closed (p_c s2)" "chan_cap (p_c s2) = n" "p_close s2 = Some d"
      "newCalls s2 = n + n"
    by simp_all
  from buf2 have "n \<le> length (chan_buf (p_c s2))"
    by simp
  note c = run_gets_stored [OF C this]
  from c buf2 show "r3 = map f [0..<n]" and "chan_buf (p_c s3) = []"
    by simp_all
  from c s2 m2 show "newCalls s3 = n + n"
      and "mset (closeCalls s3) + mset (goroutines s3) = mset (map f [n..<n + n])"
      and "\<not> chan_closed (p_c s3)" and "chan_cap (p_c s3) = n" and "p_close s3 = Some d"
    by simp_all
  have "pool_inv s1"
    using NewPool_inv [OF new] A(2) by (rule exec_inv)
  then have "pool_inv s2"
    using B(2) by (rule exec_inv)
  then show "pool_inv s3"
    using C(2) by (rule exec_inv)
qed

lemma TestPool_put_back:
  fixes f :: "nat \<Rightarrow> 'a::zero"
  assumes new: "NewPool (int n) \<lparr>NewFunc = Some f, CloseFunc = Some d\<rparr> = Inr p0"
    and A: "calls A = replicate (n + n) OpGet" "exec A p0 = Inr (r1, s1)"
    and B: "calls B = map OpPut r1" "exec B s1 = Inr (r2, s2)"
    and C: "calls C = replicate n OpGet" "exec C s2 = Inr (r3, s3)"
    and D: "calls D = map OpPut (rev r3)" "exec D s3 = Inr (r4, s4)"
    and E: "calls E = [OpClose]" "exec (E @ [OpWait]) s4 = Inr (r5, s5)"
  shows "chan_buf (p_c s4) = rev (map f [0..<n])"
    "mset (closeCalls s4) + mset (goroutines s4) = mset (map f [n..<n + n])"
    "chan_buf (p_c s5) = []" "goroutines s5 = []"
    "mset (closeCalls s5) = mset (map f [0..<n + n])"
    "length (closeCalls s5) = n + n"
proof -
  note ph = TestPool_phases [OF new A B C]
  from ph have "length (chan_buf (p_c s3)) \<le> chan_cap (p_c s3)"
    by simp
  note d = run_puts [OF D ph(9) this]
  from d ph show buf4: "chan_buf (p_c s4) = rev (map f [0..<n])"
    by simp
  from d ph show m4: "mset (closeCalls s4) + mset (goroutines s4) = mset (map f [n..<n + n])"
    by simp
  from d ph have close4: "p_close s4 = Some d"
    by simp
  have "pool_inv s4"
    using ph(12) D(2) by (rule exec_inv)
  note e = run_Close_Wait [OF E this]
  from e show "chan_buf (p_c s5) = []" "goroutines s5 = []"
    by simp_all
  have "[0..<n + n] = [0..<n] @ [n..<n + n]"
    by (simp add: upt_add_eq_append [of 0 n n, simplified])
  with e m4 buf4 close4 show m5: "mset (closeCalls s5) = mset (map f [0..<n + n])"
    by simp
  from arg_cong [OF m5, of size] show "length (closeCalls s5) = n + n"
    by simp
qed

lemma TestPool_plain_run:
  fixes f :: "nat \<Rightarrow> 'a::zero"
  assumes new: "NewPool (int n) \<lparr>NewFunc = Some f, CloseFunc = Some d\<rparr> = Inr p0"
  defines "s1 \<equiv> p0\<lparr>newCalls := n + n\<rparr>"
    and "s2 \<equiv> p0\<lparr>newCalls := n + n, p_c := (p_c p0)\<lparr>chan_buf := map f [0..<n]\<rparr>,
                  p_wg := int n, goroutines := map f [n..<n + n]\<rparr>"
    and "s3 \<equiv> p0\<lparr>newCalls := n + n, p_wg := int n, goroutines := map f [n..<n + n]\<rparr>"
    and "s4 \<equiv> p0\<lparr>newCalls := n + n, p_c := (p_c p0)\<lparr>chan_buf := rev (map f [0..<n])\<rparr>,
                  p_wg := int n, goroutines := map f [n..<n + n]\<rparr>"
    and "s5 \<equiv> p0\<lparr>newCalls := n + n, p_c := (p_c p0)\<lparr>chan_closed := True\<rparr>,
                  closeCalls := map f [n..<n + n] @ rev (map f [0..<n])\<rparr>"
    and "t5 \<equiv> p0\<lparr>newCalls := n + n, p_c := (p_c p0)\<lparr>chan_closed := True\<rparr>,
                  closeCalls := map f [n..<n + n]\<rparr>"
  shows "exec (replicate (n + n) OpGet) p0 = Inr (map f [0..<n + n], s1)"
    and "exec (map OpPut (map f [0..<n + n])) s1 = Inr ([], s2)"
    and "exec (replicate n OpGet) s2 = Inr (map f [0..<n], s3)"
    and "exec (map OpPut (rev (map f [0..<n]))) s3 = Inr ([], s4)"
    and "exec ((OpClose # replicate (n + n) (Sched 0)) @ [OpWait]) s4 = Inr ([], s5)"
    and "exec ((OpClose # replicate n (Sched 0)) @ [OpWait]) s3 = Inr ([], t5)"
proof -
  from new have p0: "p0 = \<lparr>p_c = \<lparr>chan_buf = [], chan_cap = n, chan_closed = False\<rparr>,
      p_new = Some f, p_close = Some d, p_wg = 0,
      newCalls = 0, goroutines = [], closeCalls = []\<rparr>"
    by (simp add: NewPool_Inr)
  show "exec (replicate (n + n) OpGet) p0 = Inr (map f [0..<n + n], s1)"
    using exec_gets_new [of p0 f "n + n"] by (simp add: p0 s1_def)
  show "exec (map OpPut (map f [0..<n + n])) s1 = Inr ([], s2)"
    using exec_puts [of s1 "map f [0..<n + n]"]
    by (simp add: p0 s1_def s2_def take_map drop_map)
  show "exec (replicate n OpGet) s2 = Inr (map f [0..<n], s3)"
    using exec_gets_stored [of n s2] by (simp add: p0 s2_def s3_def)
  show "exec (map OpPut (rev (map f [0..<n]))) s3 = Inr ([], s4)"
    using exec_puts [of s3 "rev (map f [0..<n])"] by (simp add: p0 s3_def s4_def)
  let ?c4 = "s4\<lparr>p_c := (p_c s4)\<lparr>chan_buf := [], chan_closed := True\<rparr>,
      p_wg := p_wg s4 + int (length (chan_buf (p_c s4))),
      goroutines := goroutines s4 @ chan_buf (p_c s4)\<rparr>"
  have "Close s4 = Inr ?c4"
    by (simp add: Close_open p0 s4_def)
  moreover have "pool_inv ?c4" "length (goroutines ?c4) = n + n"
    by (simp_all add: pool_inv_def p0 s4_def)
  from exec_run_pending [OF this(1)] this(2)
  have "exec (replicate (n + n) (Sched 0)) ?c4 =
      Inr ([], ?c4\<lparr>p_wg := 0, goroutines := [],
                     closeCalls := closeCalls ?c4 @ goroutines ?c4\<rparr>)"
    by (simp only:)
  ultimately show "exec ((OpClose # replicate (n + n) (Sched 0)) @ [OpWait]) s4 = Inr ([], s5)"
    by (simp add: exec_append Wait_def p0 s4_def s5_def)
  let ?c3 = "s3\<lparr>p_c := (p_c s3)\<lparr>chan_buf := [], chan_closed := True\<rparr>,
      p_wg := p_wg s3 + int (length (chan_buf (p_c s3))),
      goroutines := goroutines s3 @ chan_buf (p_c s3)\<rparr>"
  have "Close s3 = Inr ?c3"
    by (simp add: Close_open p0 s3_def)
  moreover have "pool_inv ?c3" "length (goroutines ?c3) = n"
    by (simp_all add: pool_inv_def p0 s3_def)
  from exec_run_pending [OF this(1)] this(2)
  have "exec (replicate n (Sched 0)) ?c3 =
      Inr ([], ?c3\<lparr>p_wg := 0, goroutines := [],
                     closeCalls := closeCalls ?c3 @ goroutines ?c3\<rparr>)"
    by (simp only:)
  ultimately show "exec ((OpClose # replicate n (Sched 0)) @ [OpWait]) s3 = Inr ([], t5)"
    by (simp add: exec_append Wait_def p0 s3_def t5_def)
qed


lemma calls_plain:
  "calls (replicate n OpGet) = replicate n OpGet"
  "calls (map OpPut vs) = map OpPut vs"
  "calls (OpClose # replicate n (Sched 0)) = [OpClose]"
  by (simp_all add: calls_def filter_map comp_def)

section \<open>The claims\<close>

subsection \<open>C1\<close>

text \<open>
  Claim C1. A pool made by \<^verbatim>\<open>NewPool\<close> with a size \<open>sz \<ge> 0\<close> never holds more than
  \<open>sz\<close> instances, whatever calls and scheduler steps the run consists of. \<^verbatim>\<open>Put\<close>
  calls on the fresh pool all return, and leave the first \<open>sz\<close> of the instances put in
  the store, that is \<open>min (length vs) sz\<close> of them; the next \<open>k\<close> calls of \<^verbatim>\<open>Get\<close>, for
  \<open>k\<close> up to that number, return instances that were put and leave the number of
  constructor invocations as it was.
\<close>

theorem store_within_capacity:
  assumes "NewPool sz opt = Inr p"
  shows "(\<forall>ops rs s. exec ops p = Inr (rs, s) \<longrightarrow> length (chan_buf (p_c s)) \<le> nat sz) \<and>
         (\<forall>vs. \<exists>s. exec (map OpPut vs) p = Inr ([], s) \<and>
            chan_buf (p_c s) = take (nat sz) vs \<and>
            length (chan_buf (p_c s)) = min (length vs) (nat sz) \<and>
            (\<forall>k \<le> min (length vs) (nat sz).
               \<exists>s'. exec (replicate k OpGet) s = Inr (take k vs, s') \<and>
                 set (take k vs) \<subseteq> set vs \<and> newCalls s' = newCalls s))"
proof (intro conjI allI impI)
  fix ops rs s
  assume run: "exec ops p = Inr (rs, s)"
  have "pool_inv s"
    using NewPool_inv [OF assms] run by (rule exec_inv)
  moreover have "chan_cap (p_c s) = nat sz"
    using exec_fixed [OF run] assms by (simp add: NewPool_Inr)
  ultimately show "length (chan_buf (p_c s)) \<le> nat sz"
    by (simp add: pool_inv_def)
next
  fix vs :: "'a list"
  have p: "\<not> chan_closed (p_c p)" "chan_buf (p_c p) = []" "chan_cap (p_c p) = nat sz"
    using assms by (simp_all add: NewPool_Inr)
  define s where "s = p\<lparr>p_c := (p_c p)\<lparr>chan_buf := take (nat sz) vs\<rparr>,
      p_wg := p_wg p + (if p_close p \<noteq> None then int (length (drop (nat sz) vs)) else 0),
      goroutines := goroutines p @ (if p_close p \<noteq> None then drop (nat sz) vs else [])\<rparr>"
  have run: "exec (map OpPut vs) p = Inr ([], s)"
    using exec_puts [of p vs] p by (simp add: s_def)
  have buf: "chan_buf (p_c s) = take (nat sz) vs"
    by (simp add: s_def)
  have gets: "\<exists>s'. exec (replicate k OpGet) s = Inr (take k vs, s') \<and>
      set (take k vs) \<subseteq> set vs \<and> newCalls s' = newCalls s"
    if "k \<le> min (length vs) (nat sz)" for k
  proof -
    from that have "k \<le> length (chan_buf (p_c s))"
      by (simp add: buf)
    moreover from that have "take k (take (nat sz) vs) = take k vs"
      by (simp add: min_absorb1)
    ultimately
    have "exec (replicate k OpGet) s =
        Inr (take k vs, s\<lparr>p_c := (p_c s)\<lparr>chan_buf := drop k (chan_buf (p_c s))\<rparr>\<rparr>)"
      using exec_gets_stored [of k s] by (simp only: buf)
    then show ?thesis
      by (auto dest: in_set_takeD)
  qed
  show "\<exists>s. exec (map OpPut vs) p = Inr ([], s) \<and>
            chan_buf (p_c s) = take (nat sz) vs \<and>
            length (chan_buf (p_c s)) = min (length vs) (nat sz) \<and>
            (\<forall>k \<le> min (length vs) (nat sz).
               \<exists>s'. exec (replicate k OpGet) s = Inr (take k vs, s') \<and>
                 set (take k vs) \<subseteq> set vs \<and> newCalls s' = newCalls s)"
    using run buf gets by (intro exI [of _ s]) (simp add: min.commute)
qed

theorem store_within_capacity_witness:
  "NewPool 2 \<lparr>NewFunc = Some Suc, CloseFunc = Some (\<lambda>v. ())\<rparr> =
     Inr \<lparr>p_c = \<lparr>chan_buf = [], chan_cap = 2, chan_closed = False\<rparr>,
          p_new = Some Suc, p_close = Some (\<lambda>v. ()), p_wg = 0,
          newCalls = 0, goroutines = [], closeCalls = []\<rparr> \<and>
   (\<exists>s. exec (map OpPut [5, 6, 7 :: nat])
            \<lparr>p_c = \<lparr>chan_buf = [], chan_cap = 2, chan_closed = False\<rparr>,
             p_new = Some Suc, p_close = Some (\<lambda>v. ()), p_wg = 0,
             newCalls = 0, goroutines = [], closeCalls = []\<rparr> = Inr ([], s) \<and>
        chan_buf (p_c s) = [5, 6] \<and>
        (\<exists>s'. exec (replicate 2 OpGet) s = Inr ([5, 6], s') \<and> newCalls s' = newCalls s))"
proof -
  let ?opt = "\<lparr>NewFunc = Some Suc, CloseFunc = Some (\<lambda>v. ())\<rparr> :: nat Options"
  let ?p = "\<lparr>p_c = \<lparr>chan_buf = [], chan_cap = 2, chan_closed = False\<rparr>,
          p_new = Some Suc, p_close = Some (\<lambda>v. ()), p_wg = 0,
          newCalls = 0, goroutines = [], closeCalls = []\<rparr> :: nat pool"
  have new: "NewPool 2 ?opt = Inr ?p"
    by (simp add: NewPool_def makechan_def)
  let ?vs = "[5, 6, 7 :: nat]"
  from store_within_capacity [OF new]
  obtain s where s: "exec (map OpPut ?vs) ?p = Inr ([], s)"
      "chan_buf (p_c s) = take (nat 2) ?vs"
      "\<forall>k \<le> min (length ?vs) (nat 2).
         \<exists>s'. exec (replicate k OpGet) s = Inr (take k ?vs, s') \<and>
           set (take k ?vs) \<subseteq> set ?vs \<and> newCalls s' = newCalls s"
    by blast
  have "(2::nat) \<le> min (length ?vs) (nat 2)"
    by simp
  with s(3) have "\<exists>s'. exec (replicate 2 OpGet) s = Inr (take 2 ?vs, s') \<and>
      set (take 2 ?vs) \<subseteq> set ?vs \<and> newCalls s' = newCalls s"
    by blast
  then have "\<exists>s'. exec (replicate 2 OpGet) s = Inr ([5, 6], s') \<and> newCalls s' = newCalls s"
    by (simp add: numeral_2_eq_2)
  with new s(1,2) show ?thesis
    by (simp add: numeral_2_eq_2)
qed

subsection \<open>C2\<close>

text \<open>
  Claim C2. On a pool that has not been closed, \<^verbatim>\<open>Get\<close> removes and returns a stored
  instance when the store is not empty (the one at the head of the buffer; the constructor
  is not invoked); on an empty store it invokes the constructor, when there is one, and
  returns its result; on an empty store without a constructor it returns the zero value
  and leaves the pool as it was. \<^verbatim>\<open>Get\<close> always returns.
\<close>

theorem Get_before_Close:
  assumes "\<not> chan_closed (p_c p)"
  shows "(\<forall>v vs. chan_buf (p_c p) = v # vs \<longrightarrow>
            Get p = (v, p\<lparr>p_c := (p_c p)\<lparr>chan_buf := vs\<rparr>\<rparr>)) \<and>
         (\<forall>f. chan_buf (p_c p) = [] \<and> p_new p = Some f \<longrightarrow>
            Get p = (f (newCalls p), p\<lparr>newCalls := newCalls p + 1\<rparr>)) \<and>
         (chan_buf (p_c p) = [] \<and> p_new p = None \<longrightarrow> Get p = (0, p)) \<and>
         (\<exists>v p'. Get p = (v, p'))"
  using assms by (auto simp: Get_nonempty Get_empty_open maybeNew_def)

theorem Get_before_Close_witness:
  "Get \<lparr>p_c = \<lparr>chan_buf = [5, 6], chan_cap = 2, chan_closed = False\<rparr>,
        p_new = Some Suc, p_close = None, p_wg = 0,
        newCalls = 3, goroutines = [], closeCalls = []\<rparr>
     = (5 :: nat,
        \<lparr>p_c = \<lparr>chan_buf = [6], chan_cap = 2, chan_closed = False\<rparr>,
         p_new = Some Suc, p_close = None, p_wg = 0,
         newCalls = 3, goroutines = [], closeCalls = []\<rparr>) \<and>
   Get \<lparr>p_c = \<lparr>chan_buf = [], chan_cap = 2, chan_closed = False\<rparr>,
        p_new = Some Suc, p_close = None, p_wg = 0,
        newCalls = 3, goroutines = [], closeCalls = []\<rparr>
     = (4 :: nat,
        \<lparr>p_c = \<lparr>chan_buf = [], chan_cap = 2, chan_closed = False\<rparr>,
         p_new = Some Suc, p_close = None, p_wg = 0,
         newCalls = 4, goroutines = [], closeCalls = []\<rparr>) \<and>
   Get \<lparr>p_c = \<lparr>chan_buf = [], chan_cap = 2, chan_closed = False\<rparr>,
        p_new = None, p_close = None, p_wg = 0,
        newCalls = 0, goroutines = [], closeCalls = []\<rparr>
     = (0 :: nat,
        \<lparr>p_c = \<lparr>chan_buf = [], chan_cap = 2, chan_closed = False\<rparr>,
         p_new = None, p_close = None, p_wg = 0,
         newCalls = 0, goroutines = [], closeCalls = []\<rparr>)"
  using
    Get_before_Close [of "\<lparr>p_c = \<lparr>chan_buf = [5, 6], chan_cap = 2, chan_closed = False\<rparr>,
        p_new = Some Suc, p_close = None, p_wg = 0,
        newCalls = 3, goroutines = [], closeCalls = []\<rparr> :: nat pool"]
    Get_before_Close [of "\<lparr>p_c = \<lparr>chan_buf = [], chan_cap = 2, chan_closed = False\<rparr>,
        p_new = Some Suc, p_close = None, p_wg = 0,
        newCalls = 3, goroutines = [], closeCalls = []\<rparr> :: nat pool"]
    Get_before_Close [of "\<lparr>p_c = \<lparr>chan_buf = [], chan_cap = 2, chan_closed = False\<rparr>,
        p_new = None, p_close = None, p_wg = 0,
        newCalls = 0, goroutines = [], closeCalls = []\<rparr> :: nat pool"]
  by simp

subsection \<open>C3\<close>

text \<open>
  Claim C3. On a pool that has not been closed, \<^verbatim>\<open>Put v\<close> appends \<open>v\<close> to the store
  when there is room, and the \<^verbatim>\<open>Get\<close> calls that follow return the stored instances
  and then \<open>v\<close>, without invoking the constructor. When the store is full and there is a
  destructor, \<open>v\<close> is not stored: exactly one goroutine for \<open>v\<close> is started and the
  wait group is incremented by one; the destructor has not run when \<^verbatim>\<open>Put\<close> returns.
  When the store is full and there is no destructor, the pool is unchanged. In every
  case \<^verbatim>\<open>Put\<close> returns normally.
\<close>

theorem Put_before_Close:
  assumes "\<not> chan_closed (p_c p)"
  shows "(length (chan_buf (p_c p)) < chan_cap (p_c p) \<longrightarrow>
            Put v p = Inr (p\<lparr>p_c := (p_c p)\<lparr>chan_buf := chan_buf (p_c p) @ [v]\<rparr>\<rparr>) \<and>
            (\<exists>p'. exec (replicate (Suc (length (chan_buf (p_c p)))) OpGet)
                     (p\<lparr>p_c := (p_c p)\<lparr>chan_buf := chan_buf (p_c p) @ [v]\<rparr>\<rparr>)
                   = Inr (chan_buf (p_c p) @ [v], p') \<and> newCalls p' = newCalls p)) \<and>
         (\<not> length (chan_buf (p_c p)) < chan_cap (p_c p) \<and> p_close p \<noteq> None \<longrightarrow>
            Put v p = Inr (p\<lparr>p_wg := p_wg p + 1, goroutines := goroutines p @ [v]\<rparr>)) \<and>
         (\<not> length (chan_buf (p_c p)) < chan_cap (p_c p) \<and> p_close p = None \<longrightarrow>
            Put v p = Inr p) \<and>
         (\<exists>p'. Put v p = Inr p')"
proof -
  let ?q = "p\<lparr>p_c := (p_c p)\<lparr>chan_buf := chan_buf (p_c p) @ [v]\<rparr>\<rparr>"
  have "exec (replicate (Suc (length (chan_buf (p_c p)))) OpGet) ?q
      = Inr (chan_buf (p_c p) @ [v], ?q\<lparr>p_c := (p_c ?q)\<lparr>chan_buf := []\<rparr>\<rparr>)"
    using exec_gets_stored [of "Suc (length (chan_buf (p_c p)))" ?q] by simp
  then have "\<exists>p'. exec (replicate (Suc (length (chan_buf (p_c p)))) OpGet) ?q
      = Inr (chan_buf (p_c p) @ [v], p') \<and> newCalls p' = newCalls p"
    by simp
  moreover have "\<exists>p'. Put v p = Inr p'"
    using assms by (cases "length (chan_buf (p_c p)) < chan_cap (p_c p)")
      (simp_all add: Put_room Put_full)
  ultimately show ?thesis
    using assms by (simp add: Put_room Put_full maybeClose_def)
qed

theorem Put_before_Close_witness:
  "Put (7 :: nat)
       \<lparr>p_c = \<lparr>chan_buf = [5], chan_cap = 2, chan_closed = False\<rparr>,
        p_new = None, p_close = Some (\<lambda>v. ()), p_wg = 0,
        newCalls = 0, goroutines = [], closeCalls = []\<rparr>
     = Inr \<lparr>p_c = \<lparr>chan_buf = [5, 7], chan_cap = 2, chan_closed = False\<rparr>,
            p_new = None, p_close = Some (\<lambda>v. ()), p_wg = 0,
            newCalls = 0, goroutines = [], closeCalls = []\<rparr> \<and>
   Put (7 :: nat)
       \<lparr>p_c = \<lparr>chan_buf = [5, 6], chan_cap = 2, chan_closed = False\<rparr>,
        p_new = None, p_close = Some (\<lambda>v. ()), p_wg = 0,
        newCalls = 0, goroutines = [], closeCalls = []\<rparr>
     = Inr \<lparr>p_c = \<lparr>chan_buf = [5, 6], chan_cap = 2, chan_closed = False\<rparr>,
            p_new = None, p_close = Some (\<lambda>v. ()), p_wg = 1,
            newCalls = 0, goroutines = [7], closeCalls = []\<rparr> \<and>
   Put (7 :: nat)
       \<lparr>p_c = \<lparr>chan_buf = [5, 6], chan_cap = 2, chan_closed = False\<rparr>,
        p_new = None, p_close = None, p_wg = 0,
        newCalls = 0, goroutines = [], closeCalls = []\<rparr>
     = Inr \<lparr>p_c = \<lparr>chan_buf = [5, 6], chan_cap = 2, chan_closed = False\<rparr>,
            p_new = None, p_close = None, p_wg = 0,
            newCalls = 0, goroutines = [], closeCalls = []\<rparr>"
  using
    Put_before_Close [of "\<lparr>p_c = \<lparr>chan_buf = [5], chan_cap = 2, chan_closed = False\<rparr>,
        p_new = None, p_close = Some (\<lambda>v. ()), p_wg = 0,
        newCalls = 0, goroutines = [], closeCalls = []\<rparr> :: nat pool" 7]
    Put_before_Close [of "\<lparr>p_c = \<lparr>chan_buf = [5, 6], chan_cap = 2, chan_closed = False\<rparr>,
        p_new = None, p_close = Some (\<lambda>v. ()), p_wg = 0,
        newCalls = 0, goroutines = [], closeCalls = []\<rparr> :: nat pool" 7]
    Put_before_Close [of "\<lparr>p_c = \<lparr>chan_buf = [5, 6], chan_cap = 2, chan_closed = False\<rparr>,
        p_new = None, p_close = None, p_wg = 0,
        newCalls = 0, goroutines = [], closeCalls = []\<rparr> :: nat pool" 7]
  by simp

subsection \<open>C4\<close>

text \<open>
  Claim C4. Take a pool made by \<^verbatim>\<open>NewPool\<close> and any run of \<^verbatim>\<open>Get\<close> and \<^verbatim>\<open>Put\<close> calls on
  it, with the scheduler running destructor goroutines whenever it likes. Then \<^verbatim>\<open>Close\<close>
  returns, and \<^verbatim>\<open>Wait\<close> on the wait group it returns does return once the scheduler has
  run the pending goroutines. However the scheduler orders them, when \<^verbatim>\<open>Wait\<close> returns
  the store is empty, no goroutine is pending, and the destructor invocations are, as a
  multiset, the instances that were in the store when \<^verbatim>\<open>Close\<close> was called together
  with the instances that overflowed before: one invocation for each, none twice and
  none missing. Without a destructor there is no invocation at all.
\<close>

theorem Close_Wait_destroys_each_once:
  assumes new: "NewPool sz opt = Inr p0"
    and ops: "\<forall>a \<in> set ops. is_GetPut a \<or> is_Sched a"
    and run: "exec ops p0 = Inr (rs, p)"
  shows "\<exists>p1. Close p = Inr p1 \<and>
           (\<exists>p2. exec (replicate (length (goroutines p1)) (Sched 0) @ [OpWait]) p1
                  = Inr ([], p2)) \<and>
           (\<forall>sch rs' p2.
              (\<forall>a \<in> set sch. is_Sched a) \<and> exec (sch @ [OpWait]) p1 = Inr (rs', p2) \<longrightarrow>
                chan_buf (p_c p2) = [] \<and> goroutines p2 = [] \<and>
                mset (closeCalls p2) =
                  (if CloseFunc opt = None then {#}
                   else mset (chan_buf (p_c p)) + mset (overflowed p0 ops)))"
proof -
  from new have p0: "\<not> chan_closed (p_c p0)" "closeCalls p0 = []" "goroutines p0 = []"
      "p_close p0 = CloseFunc opt"
    by (simp_all add: NewPool_Inr)
  from exec_account [OF ops p0(1) run] p0
  have p: "\<not> chan_closed (p_c p)"
      "mset (closeCalls p) + mset (goroutines p) =
         (if CloseFunc opt = None then {#} else mset (overflowed p0 ops))"
    by simp_all
  have inv_p: "pool_inv p"
    using NewPool_inv [OF new] run by (rule exec_inv)
  have close_p: "p_close p = CloseFunc opt"
    using exec_fixed [OF run] p0(4) by simp
  from p(1) obtain p1 where p1: "Close p = Inr p1"
    by (simp add: Close_open)
  then have step1: "step OpClose p = Inr ([], p1)"
    by simp
  have inv_p1: "pool_inv p1"
    using inv_p step1 by (rule step_inv)
  note closed_p1 = Close_Inr_closed [OF p1]
  note acc_p1 = Close_Inr_account [OF p1]
  let ?done = "p1\<lparr>p_wg := 0, goroutines := [], closeCalls := closeCalls p1 @ goroutines p1\<rparr>"
  have "exec (replicate (length (goroutines p1)) (Sched 0) @ [OpWait]) p1 = Inr ([], ?done)"
    using exec_run_pending [OF inv_p1] by (simp add: exec_append Wait_def)
  then have ex: "\<exists>p2. exec (replicate (length (goroutines p1)) (Sched 0) @ [OpWait]) p1
      = Inr ([], p2)"
    by blast
  have all: "chan_buf (p_c p2) = [] \<and> goroutines p2 = [] \<and>
      mset (closeCalls p2) =
        (if CloseFunc opt = None then {#}
         else mset (chan_buf (p_c p)) + mset (overflowed p0 ops))"
    if sch: "\<forall>a \<in> set sch. is_Sched a" and w: "exec (sch @ [OpWait]) p1 = Inr (rs', p2)"
    for sch rs' p2
  proof -
    from w obtain r1 q where q: "exec sch p1 = Inr (r1, q)" "Wait q = Inr p2"
      by (auto simp: exec_append_Inr split: sum.splits)
    then have eq: "p2 = q" "p_wg q = 0"
      by (simp_all add: Wait_Inr)
    have "pool_inv q"
      using inv_p1 q(1) by (rule exec_inv)
    with eq(2) have g: "goroutines q = []"
      by (simp add: pool_inv_def)
    note s = exec_Sched [OF sch q(1)]
    from s g have "mset (closeCalls q) = mset (closeCalls p1) + mset (goroutines p1)"
      by simp
    also have "\<dots> = mset (closeCalls p) + mset (goroutines p) +
        (if CloseFunc opt = None then {#} else mset (chan_buf (p_c p)))"
      using acc_p1 close_p by simp
    also have "\<dots> = (if CloseFunc opt = None then {#}
        else mset (chan_buf (p_c p)) + mset (overflowed p0 ops))"
      using p(2) by (simp add: ac_simps)
    finally show ?thesis
      using s closed_p1 g eq(1) by simp
  qed
  from p1 ex all show ?thesis
    by blast
qed


theorem Close_Wait_destroys_each_once_witness:
  "NewPool 1 \<lparr>NewFunc = Some Suc, CloseFunc = Some (\<lambda>v. ())\<rparr>
     = Inr (\<lparr>p_c = \<lparr>chan_buf = [], chan_cap = 1, chan_closed = False\<rparr>,
          p_new = Some Suc, p_close = Some (\<lambda>v. ()), p_wg = 0,
          newCalls = 0, goroutines = [], closeCalls = []\<rparr> :: nat pool) \<and>
   exec [OpGet, OpGet, OpPut 1, OpPut 2, Sched 0]
        \<lparr>p_c = \<lparr>chan_buf = [], chan_cap = 1, chan_closed = False\<rparr>,
          p_new = Some Suc, p_close = Some (\<lambda>v. ()), p_wg = 0,
          newCalls = 0, goroutines = [], closeCalls = []\<rparr>
     = Inr ([1, 2],
        \<lparr>p_c = \<lparr>chan_buf = [1], chan_cap = 1, chan_closed = False\<rparr>,
          p_new = Some Suc, p_close = Some (\<lambda>v. ()), p_wg = 0,
          newCalls = 2, goroutines = [], closeCalls = [2]\<rparr>) \<and>
   overflowed (\<lparr>p_c = \<lparr>chan_buf = [], chan_cap = 1, chan_closed = False\<rparr>,
          p_new = Some Suc, p_close = Some (\<lambda>v. ()), p_wg = 0,
          newCalls = 0, goroutines = [], closeCalls = []\<rparr> :: nat pool)
        [OpGet, OpGet, OpPut 1, OpPut 2, Sched 0] = [2] \<and>
   Close (\<lparr>p_c = \<lparr>chan_buf = [1], chan_cap = 1, chan_closed = False\<rparr>,
          p_new = Some Suc, p_close = Some (\<lambda>v. ()), p_wg = 0,
          newCalls = 2, goroutines = [], closeCalls = [2]\<rparr> :: nat pool)
     = Inr \<lparr>p_c = \<lparr>chan_buf = [], chan_cap = 1, chan_closed = True\<rparr>,
          p_new = Some Suc, p_close = Some (\<lambda>v. ()), p_wg = 1,
          newCalls = 2, goroutines = [1], closeCalls = [2]\<rparr> \<and>
   exec ([Sched 0] @ [OpWait])
        \<lparr>p_c = \<lparr>chan_buf = [], chan_cap = 1, chan_closed = True\<rparr>,
          p_new = Some Suc, p_close = Some (\<lambda>v. ()), p_wg = 1,
          newCalls = 2, goroutines = [1], closeCalls = [2]\<rparr>
     = Inr ([],
        \<lparr>p_c = \<lparr>chan_buf = [], chan_cap = 1, chan_closed = True\<rparr>,
          p_new = Some Suc, p_close = Some (\<lambda>v. ()), p_wg = 0,
          newCalls = 2, goroutines = [], closeCalls = [2, 1]\<rparr>) \<and>
   mset [2, 1 :: nat] = mset [1] + mset [2]"
proof -
  let ?opt = "\<lparr>NewFunc = Some Suc, CloseFunc = Some (\<lambda>v. ())\<rparr> :: nat Options"
  let ?ops = "[OpGet, OpGet, OpPut 1, OpPut 2, Sched 0] :: nat op list"
  let ?A = "\<lparr>p_c = \<lparr>chan_buf = [], chan_cap = 1, chan_closed = False\<rparr>,
          p_new = Some Suc, p_close = Some (\<lambda>v. ()), p_wg = 0,
          newCalls = 0, goroutines = [], closeCalls = []\<rparr> :: nat pool"
  let ?B = "\<lparr>p_c = \<lparr>chan_buf = [1], chan_cap = 1, chan_closed = False\<rparr>,
          p_new = Some Suc, p_close = Some (\<lambda>v. ()), p_wg = 0,
          newCalls = 2, goroutines = [], closeCalls = [2]\<rparr> :: nat pool"
  let ?C = "\<lparr>p_c = \<lparr>chan_buf = [], chan_cap = 1, chan_closed = True\<rparr>,
          p_new = Some Suc, p_close = Some (\<lambda>v. ()), p_wg = 1,
          newCalls = 2, goroutines = [1], closeCalls = [2]\<rparr> :: nat pool"
  let ?D = "\<lparr>p_c = \<lparr>chan_buf = [], chan_cap = 1, chan_closed = True\<rparr>,
          p_new = Some Suc, p_close = Some (\<lambda>v. ()), p_wg = 0,
          newCalls = 2, goroutines = [], closeCalls = [2, 1]\<rparr> :: nat pool"
  have new: "NewPool 1 ?opt = Inr ?A"
    by (simp add: NewPool_def makechan_def)
  have ops: "\<forall>a \<in> set ?ops. is_GetPut a \<or> is_Sched a"
    by simp
  have run: "exec ?ops ?A = Inr ([1, 2], ?B)"
    by (simp add: Get_def try_recv_def maybeNew_def Put_def try_send_def maybeClose_def
        runGoroutine_def)
  have ov: "overflowed ?A ?ops = [2]"
    by (simp add: Get_def try_recv_def maybeNew_def Put_def try_send_def maybeClose_def
        runGoroutine_def)
  have cl: "Close ?B = Inr ?C"
    by (simp add: Close_open)
  have w: "exec ([Sched 0] @ [OpWait]) ?C = Inr ([], ?D)"
    by (simp add: runGoroutine_def Wait_def)
  from Close_Wait_destroys_each_once [OF new ops run] cl
  have "\<forall>sch rs' p2.
      (\<forall>a \<in> set sch. is_Sched a) \<and> exec (sch @ [OpWait]) ?C = Inr (rs', p2) \<longrightarrow>
        chan_buf (p_c p2) = [] \<and> goroutines p2 = [] \<and>
        mset (closeCalls p2) =
          (if CloseFunc ?opt = None then {#}
           else mset (chan_buf (p_c ?B)) + mset (overflowed ?A ?ops))"
    by simp
  then have "(\<forall>a \<in> set [Sched 0 :: nat op]. is_Sched a) \<and>
      exec ([Sched 0] @ [OpWait]) ?C = Inr ([], ?D) \<longrightarrow>
        mset (closeCalls ?D) =
          (if CloseFunc ?opt = None then {#}
           else mset (chan_buf (p_c ?B)) + mset (overflowed ?A ?ops))"
    by blast
  with w ov have "mset [2, 1 :: nat] = mset [1] + mset [2]"
    by simp
  with new run ov cl w show ?thesis
    by (intro conjI)
qed

subsection \<open>C5\<close>

text \<open>
  Claim C5. On a fresh pool of capacity \<open>C\<close>, take \<open>C + k\<close> calls of \<^verbatim>\<open>Put\<close> with \<open>k > 0\<close>.
  Run without any scheduler step in between, all of them return, the first \<open>C\<close>
  instances are in the store, and with a destructor the goroutines for the last \<open>k\<close>
  instances are all still pending, counted by the wait group: no \<^verbatim>\<open>Put\<close> has waited for
  a destructor. Run with any steps of the scheduler in between, the destructor
  invocations done and pending are together, as a multiset, the instances of the last
  \<open>k\<close> calls: one invocation for each of these calls, \<open>k\<close> in all, and on pairwise
  different values when the values put are pairwise different. Without a destructor there
  is no invocation and no goroutine: the \<open>k\<close> instances are dropped.
\<close>

theorem overflow_Puts:
  assumes new: "NewPool sz opt = Inr p0"
    and len: "length vs = nat sz + k"
    and k: "0 < k"
  shows "(\<exists>s. exec (map OpPut vs) p0 = Inr ([], s) \<and>
            chan_buf (p_c s) = take (nat sz) vs \<and> closeCalls s = [] \<and>
            goroutines s = (if CloseFunc opt = None then [] else drop (nat sz) vs) \<and>
            p_wg s = int (length (goroutines s))) \<and>
         (\<forall>ops rs s. calls ops = map OpPut vs \<and> exec ops p0 = Inr (rs, s) \<longrightarrow>
            chan_buf (p_c s) = take (nat sz) vs \<and>
            mset (closeCalls s) + mset (goroutines s) =
              (if CloseFunc opt = None then {#} else mset (drop (nat sz) vs)) \<and>
            length (closeCalls s) + length (goroutines s) =
              (if CloseFunc opt = None then 0 else k) \<and>
            (distinct vs \<longrightarrow> distinct (closeCalls s @ goroutines s)))"
proof -
  from new have p0: "\<not> chan_closed (p_c p0)" "chan_buf (p_c p0) = []"
      "chan_cap (p_c p0) = nat sz" "closeCalls p0 = []" "goroutines p0 = []" "p_wg p0 = 0"
      "p_close p0 = CloseFunc opt"
    by (simp_all add: NewPool_Inr)
  define s0 where "s0 = p0\<lparr>p_c := (p_c p0)\<lparr>chan_buf := take (nat sz) vs\<rparr>,
      p_wg := (if CloseFunc opt \<noteq> None then int (length (drop (nat sz) vs)) else 0),
      goroutines := (if CloseFunc opt \<noteq> None then drop (nat sz) vs else [])\<rparr>"
  have run0: "exec (map OpPut vs) p0 = Inr ([], s0)"
    using exec_puts [of p0 vs] p0 by (simp add: s0_def)
  have s0: "chan_buf (p_c s0) = take (nat sz) vs" "closeCalls s0 = []"
      "goroutines s0 = (if CloseFunc opt = None then [] else drop (nat sz) vs)"
      "p_wg s0 = int (length (goroutines s0))"
    using p0 by (simp_all add: s0_def)
  have all: "chan_buf (p_c s) = take (nat sz) vs \<and>
      mset (closeCalls s) + mset (goroutines s) =
        (if CloseFunc opt = None then {#} else mset (drop (nat sz) vs)) \<and>
      length (closeCalls s) + length (goroutines s) =
        (if CloseFunc opt = None then 0 else k) \<and>
      (distinct vs \<longrightarrow> distinct (closeCalls s @ goroutines s))"
    if c: "calls ops = map OpPut vs" and r: "exec ops p0 = Inr (rs, s)" for ops rs s
  proof -
    from c have "OpWait \<notin> set (calls ops)"
      by auto
    from exec_calls [OF this sched_equiv_refl r] c run0
    have eq: "sched_equiv s s0"
      by simp
    then have buf: "chan_buf (p_c s) = take (nat sz) vs"
      using s0(1) by (simp add: sched_equiv_def)
    from eq s0 have m: "mset (closeCalls s @ goroutines s) =
        (if CloseFunc opt = None then {#} else mset (drop (nat sz) vs))"
      by (simp add: sched_equiv_def)
    from arg_cong [OF m, of size] len
    have n: "length (closeCalls s) + length (goroutines s) =
        (if CloseFunc opt = None then 0 else k)"
      by simp
    have d: "distinct (closeCalls s @ goroutines s)" if "distinct vs"
    proof (cases "CloseFunc opt = None")
      case True
      with m show ?thesis by simp
    next
      case False
      with m have "mset (closeCalls s @ goroutines s) = mset (drop (nat sz) vs)"
        by simp
      from mset_eq_imp_distinct_iff [OF this] that show ?thesis
        by simp
    qed
    from buf m n d show ?thesis
      by simp
  qed
  from run0 s0 all show ?thesis
    by blast
qed


theorem overflow_Puts_witness:
  "NewPool 1 \<lparr>NewFunc = Some Suc, CloseFunc = Some (\<lambda>v. ())\<rparr>
     = Inr (\<lparr>p_c = \<lparr>chan_buf = [], chan_cap = 1, chan_closed = False\<rparr>,
          p_new = Some Suc, p_close = Some (\<lambda>v. ()), p_wg = 0,
          newCalls = 0, goroutines = [], closeCalls = []\<rparr> :: nat pool) \<and>
   exec (map OpPut [5, 6, 7])
        \<lparr>p_c = \<lparr>chan_buf = [], chan_cap = 1, chan_closed = False\<rparr>,
          p_new = Some Suc, p_close = Some (\<lambda>v. ()), p_wg = 0,
          newCalls = 0, goroutines = [], closeCalls = []\<rparr>
     = Inr ([],
        \<lparr>p_c = \<lparr>chan_buf = [5], chan_cap = 1, chan_closed = False\<rparr>,
          p_new = Some Suc, p_close = Some (\<lambda>v. ()), p_wg = 2,
          newCalls = 0, goroutines = [6, 7], closeCalls = []\<rparr>) \<and>
   calls [OpPut 5, OpPut 6, Sched 0, OpPut 7] = map OpPut [5, 6, 7 :: nat] \<and>
   exec [OpPut 5, OpPut 6, Sched 0, OpPut 7]
        \<lparr>p_c = \<lparr>chan_buf = [], chan_cap = 1, chan_closed = False\<rparr>,
          p_new = Some Suc, p_close = Some (\<lambda>v. ()), p_wg = 0,
          newCalls = 0, goroutines = [], closeCalls = []\<rparr>
     = Inr ([],
        \<lparr>p_c = \<lparr>chan_buf = [5], chan_cap = 1, chan_closed = False\<rparr>,
          p_new = Some Suc, p_close = Some (\<lambda>v. ()), p_wg = 1,
          newCalls = 0, goroutines = [7], closeCalls = [6]\<rparr>) \<and>
   mset [6] + mset [7] = mset [6, 7 :: nat] \<and> distinct ([6] @ [7 :: nat])"
proof -
  let ?opt = "\<lparr>NewFunc = Some Suc, CloseFunc = Some (\<lambda>v. ())\<rparr> :: nat Options"
  let ?vs = "[5, 6, 7 :: nat]"
  let ?ops = "[OpPut 5, OpPut 6, Sched 0, OpPut 7] :: nat op list"
  let ?A = "\<lparr>p_c = \<lparr>chan_buf = [], chan_cap = 1, chan_closed = False\<rparr>,
          p_new = Some Suc, p_close = Some (\<lambda>v. ()), p_wg = 0,
          newCalls = 0, goroutines = [], closeCalls = []\<rparr> :: nat pool"
  let ?B = "\<lparr>p_c = \<lparr>chan_buf = [5], chan_cap = 1, chan_closed = False\<rparr>,
          p_new = Some Suc, p_close = Some (\<lambda>v. ()), p_wg = 2,
          newCalls = 0, goroutines = [6, 7], closeCalls = []\<rparr> :: nat pool"
  let ?C = "\<lparr>p_c = \<lparr>chan_buf = [5], chan_cap = 1, chan_closed = False\<rparr>,
          p_new = Some Suc, p_close = Some (\<lambda>v. ()), p_wg = 1,
          newCalls = 0, goroutines = [7], closeCalls = [6]\<rparr> :: nat pool"
  have new: "NewPool 1 ?opt = Inr ?A"
    by (simp add: NewPool_def makechan_def)
  have len: "length ?vs = nat 1 + 2"
    by simp
  have c: "calls ?ops = map OpPut ?vs"
    by (simp add: calls_def)
  have r: "exec ?ops ?A = Inr ([], ?C)"
    by (simp add: Put_def try_send_def maybeClose_def runGoroutine_def)
  have r0: "exec (map OpPut ?vs) ?A = Inr ([], ?B)"
    by (simp add: Put_def try_send_def maybeClose_def)
  from overflow_Puts [OF new len]
  have "\<forall>ops rs s. calls ops = map OpPut ?vs \<and> exec ops ?A = Inr (rs, s) \<longrightarrow>
      chan_buf (p_c s) = take (nat 1) ?vs \<and>
      mset (closeCalls s) + mset (goroutines s) =
        (if CloseFunc ?opt = None then {#} else mset (drop (nat 1) ?vs)) \<and>
      length (closeCalls s) + length (goroutines s) =
        (if CloseFunc ?opt = None then 0 else 2) \<and>
      (distinct ?vs \<longrightarrow> distinct (closeCalls s @ goroutines s))"
    by simp
  then have "calls ?ops = map OpPut ?vs \<and> exec ?ops ?A = Inr ([], ?C) \<longrightarrow>
      mset (closeCalls ?C) + mset (goroutines ?C) =
        (if CloseFunc ?opt = None then {#} else mset (drop (nat 1) ?vs)) \<and>
      (distinct ?vs \<longrightarrow> distinct (closeCalls ?C @ goroutines ?C))"
    by blast
  with c r have "mset [6] + mset [7] = mset [6, 7 :: nat] \<and> distinct ([6] @ [7 :: nat])"
    by simp
  with new r0 c r show ?thesis
    by (intro conjI) simp_all
qed

subsection \<open>C6\<close>

text \<open>
  Claim C6. \<^verbatim>\<open>Put v\<close> of a resetting pool first applies \<^verbatim>\<open>v.Reset()\<close> to the heap, in
  the call itself and whatever the embedded pool then does with \<open>v\<close>, and passes \<open>v\<close> to
  the embedded pool's \<^verbatim>\<open>Put\<close>; \<^verbatim>\<open>Get\<close> and \<^verbatim>\<open>Close\<close> are those of the embedded pool.
  So, for an element type whose \<^verbatim>\<open>Reset\<close> leaves the pristine content, and whatever
  mutations \<open>ms\<close> the heap has gone through since the instance was got: when the store
  is open and has room, \<^verbatim>\<open>Put v\<close> stores \<open>v\<close>, the content of \<open>v\<close> in the heap that
  \<^verbatim>\<open>Put\<close> leaves is the pristine one, and the \<^verbatim>\<open>Get\<close> call that comes after those for
  the instances stored before returns \<open>v\<close> (the next one, when the store was empty).
  Nothing is said of what else \<^verbatim>\<open>Reset\<close> keeps of the instance: in the example below, the
  buffer of \<^verbatim>\<open>Test_resetPool\<close>, the length is 0 after \<^verbatim>\<open>Put\<close> and the capacity is not.
\<close>

theorem resetPool_Put_resets:
  fixes Reset :: "'a::zero \<Rightarrow> 'h \<Rightarrow> 'h" and content :: "'a \<Rightarrow> 'h \<Rightarrow> 'c"
  assumes reset: "\<forall>v h. content v (Reset v h) = pristine"
  shows "resetPool_Put Reset v h rp =
           (Reset v h, case Put v (Pool rp) of Inl e \<Rightarrow> Inl e | Inr p' \<Rightarrow> Inr (rp\<lparr>Pool := p'\<rparr>)) \<and>
         resetPool_Get rp = (case Get (Pool rp) of (x, p') \<Rightarrow> (x, rp\<lparr>Pool := p'\<rparr>)) \<and>
         resetPool_Close rp =
           (case Close (Pool rp) of Inl e \<Rightarrow> Inl e | Inr p' \<Rightarrow> Inr (rp\<lparr>Pool := p'\<rparr>)) \<and>
         (\<not> chan_closed (p_c (Pool rp)) \<and>
          length (chan_buf (p_c (Pool rp))) < chan_cap (p_c (Pool rp)) \<longrightarrow>
            (\<exists>rp'. resetPool_Put Reset v (fold id ms h) rp = (Reset v (fold id ms h), Inr rp') \<and>
               content v (Reset v (fold id ms h)) = pristine \<and>
               (\<exists>p''. exec (replicate (Suc (length (chan_buf (p_c (Pool rp))))) OpGet) (Pool rp')
                      = Inr (chan_buf (p_c (Pool rp)) @ [v], p'')) \<and>
               (chan_buf (p_c (Pool rp)) = [] \<longrightarrow> (\<exists>rp''. resetPool_Get rp' = (v, rp'')))))"
proof (intro conjI impI)
  show "resetPool_Put Reset v h rp =
      (Reset v h, case Put v (Pool rp) of Inl e \<Rightarrow> Inl e | Inr p' \<Rightarrow> Inr (rp\<lparr>Pool := p'\<rparr>))"
    by (simp add: resetPool_Put_def)
  show "resetPool_Get rp = (case Get (Pool rp) of (x, p') \<Rightarrow> (x, rp\<lparr>Pool := p'\<rparr>))"
    by (simp add: resetPool_Get_def)
  show "resetPool_Close rp =
      (case Close (Pool rp) of Inl e \<Rightarrow> Inl e | Inr p' \<Rightarrow> Inr (rp\<lparr>Pool := p'\<rparr>))"
    by (simp add: resetPool_Close_def)
next
  let ?p = "Pool rp"
  let ?q = "?p\<lparr>p_c := (p_c ?p)\<lparr>chan_buf := chan_buf (p_c ?p) @ [v]\<rparr>\<rparr>"
  assume "\<not> chan_closed (p_c ?p) \<and> length (chan_buf (p_c ?p)) < chan_cap (p_c ?p)"
  then have put: "Put v ?p = Inr ?q"
    by (simp add: Put_room)
  then have 1: "resetPool_Put Reset v (fold id ms h) rp =
      (Reset v (fold id ms h), Inr (rp\<lparr>Pool := ?q\<rparr>))"
    by (simp add: resetPool_Put_def)
  have 2: "content v (Reset v (fold id ms h)) = pristine"
    using reset by simp
  have 3: "exec (replicate (Suc (length (chan_buf (p_c ?p)))) OpGet) ?q
      = Inr (chan_buf (p_c ?p) @ [v], ?q\<lparr>p_c := (p_c ?q)\<lparr>chan_buf := []\<rparr>\<rparr>)"
    using exec_gets_stored [of "Suc (length (chan_buf (p_c ?p)))" ?q] by simp
  have 4: "\<exists>rp''. resetPool_Get (rp\<lparr>Pool := ?q\<rparr>) = (v, rp'')" if "chan_buf (p_c ?p) = []"
    using that by (simp add: resetPool_Get_def Get_nonempty)
  show "\<exists>rp'. resetPool_Put Reset v (fold id ms h) rp = (Reset v (fold id ms h), Inr rp') \<and>
      content v (Reset v (fold id ms h)) = pristine \<and>
      (\<exists>p''. exec (replicate (Suc (length (chan_buf (p_c ?p)))) OpGet) (Pool rp')
             = Inr (chan_buf (p_c ?p) @ [v], p'')) \<and>
      (chan_buf (p_c ?p) = [] \<longrightarrow> (\<exists>rp''. resetPool_Get rp' = (v, rp'')))"
    using 1 2 3 4 by (intro exI [of _ "rp\<lparr>Pool := ?q\<rparr>"]) simp
qed


theorem resetPool_Put_resets_witness:
  "NewResetterPool 10 \<lparr>NewFunc = Some Suc, CloseFunc = None\<rparr>
     = Inr (\<lparr>Pool = \<lparr>p_c = \<lparr>chan_buf = [], chan_cap = 10, chan_closed = False\<rparr>,
          p_new = Some Suc, p_close = None, p_wg = 0,
          newCalls = 0, goroutines = [], closeCalls = []\<rparr>\<rparr> :: nat resetPool) \<and>
   resetPool_Get (\<lparr>Pool = \<lparr>p_c = \<lparr>chan_buf = [], chan_cap = 10, chan_closed = False\<rparr>,
          p_new = Some Suc, p_close = None, p_wg = 0,
          newCalls = 0, goroutines = [], closeCalls = []\<rparr>\<rparr> :: nat resetPool)
     = (1, \<lparr>Pool = \<lparr>p_c = \<lparr>chan_buf = [], chan_cap = 10, chan_closed = False\<rparr>,
          p_new = Some Suc, p_close = None, p_wg = 0,
          newCalls = 1, goroutines = [], closeCalls = []\<rparr>\<rparr>) \<and>
   resetPool_Put Buffer_Reset 1
        (fold id [Buffer_WriteString ''hello'' 1] (\<lambda>a. \<lparr>buf_bytes = [], buf_cap = 0\<rparr>))
        \<lparr>Pool = \<lparr>p_c = \<lparr>chan_buf = [], chan_cap = 10, chan_closed = False\<rparr>,
          p_new = Some Suc, p_close = None, p_wg = 0,
          newCalls = 1, goroutines = [], closeCalls = []\<rparr>\<rparr>
     = (Buffer_Reset 1 (fold id [Buffer_WriteString ''hello'' 1] (\<lambda>a. \<lparr>buf_bytes = [], buf_cap = 0\<rparr>)),
        Inr \<lparr>Pool = \<lparr>p_c = \<lparr>chan_buf = [1], chan_cap = 10, chan_closed = False\<rparr>,
          p_new = Some Suc, p_close = None, p_wg = 0,
          newCalls = 1, goroutines = [], closeCalls = []\<rparr>\<rparr>) \<and>
   resetPool_Get (\<lparr>Pool = \<lparr>p_c = \<lparr>chan_buf = [1], chan_cap = 10, chan_closed = False\<rparr>,
          p_new = Some Suc, p_close = None, p_wg = 0,
          newCalls = 1, goroutines = [], closeCalls = []\<rparr>\<rparr> :: nat resetPool)
     = (1, \<lparr>Pool = \<lparr>p_c = \<lparr>chan_buf = [], chan_cap = 10, chan_closed = False\<rparr>,
          p_new = Some Suc, p_close = None, p_wg = 0,
          newCalls = 1, goroutines = [], closeCalls = []\<rparr>\<rparr>) \<and>
   Buffer_Len 1 (Buffer_Reset 1 (fold id [Buffer_WriteString ''hello'' 1] (\<lambda>a. \<lparr>buf_bytes = [], buf_cap = 0\<rparr>))) = 0 \<and>
   0 < Buffer_Cap 1 (Buffer_Reset 1 (fold id [Buffer_WriteString ''hello'' 1] (\<lambda>a. \<lparr>buf_bytes = [], buf_cap = 0\<rparr>)))"
proof -
  let ?A = "\<lparr>Pool = \<lparr>p_c = \<lparr>chan_buf = [], chan_cap = 10, chan_closed = False\<rparr>,
          p_new = Some Suc, p_close = None, p_wg = 0,
          newCalls = 0, goroutines = [], closeCalls = []\<rparr>\<rparr> :: nat resetPool"
  let ?B = "\<lparr>Pool = \<lparr>p_c = \<lparr>chan_buf = [], chan_cap = 10, chan_closed = False\<rparr>,
          p_new = Some Suc, p_close = None, p_wg = 0,
          newCalls = 1, goroutines = [], closeCalls = []\<rparr>\<rparr> :: nat resetPool"
  let ?C = "\<lparr>Pool = \<lparr>p_c = \<lparr>chan_buf = [1], chan_cap = 10, chan_closed = False\<rparr>,
          p_new = Some Suc, p_close = None, p_wg = 0,
          newCalls = 1, goroutines = [], closeCalls = []\<rparr>\<rparr> :: nat resetPool"
  let ?h = "\<lambda>a :: nat. \<lparr>buf_bytes = [], buf_cap = 0\<rparr>"
  let ?ms = "[Buffer_WriteString ''hello'' 1]"
  have reset: "\<forall>v h. Buffer_Len v (Buffer_Reset v h) = 0"
    by (simp add: Buffer_Len_def Buffer_Reset_def)
  have new: "NewResetterPool 10 \<lparr>NewFunc = Some Suc, CloseFunc = None\<rparr> = Inr ?A"
    by (simp add: NewResetterPool_def NewPool_def makechan_def)
  have g1: "resetPool_Get ?A = (1, ?B)"
    by (simp add: resetPool_Get_def Get_def try_recv_def maybeNew_def)
  have g2: "resetPool_Get ?C = (1, ?B)"
    by (simp add: resetPool_Get_def Get_def try_recv_def)
  have put: "resetPool_Put Buffer_Reset 1 (fold id ?ms ?h) ?B
      = (Buffer_Reset 1 (fold id ?ms ?h), Inr ?C)"
    by (simp add: resetPool_Put_def Put_def try_send_def)
  have room: "\<not> chan_closed (p_c (Pool ?B)) \<and>
      length (chan_buf (p_c (Pool ?B))) < chan_cap (p_c (Pool ?B))"
    by simp
  note t = resetPool_Put_resets [where content = Buffer_Len and Reset = Buffer_Reset
      and pristine = 0 and v = 1 and h = ?h and rp = ?B and ms = ?ms, OF reset]
  from mp [OF t [THEN conjunct2, THEN conjunct2, THEN conjunct2] room]
  have len: "Buffer_Len 1 (Buffer_Reset 1 (fold id ?ms ?h)) = 0"
    by blast
  have cap: "0 < Buffer_Cap 1 (Buffer_Reset 1 (fold id ?ms ?h))"
    by (simp add: Buffer_Cap_def Buffer_Reset_def Buffer_WriteString_def)
  from new g1 put g2 len cap show ?thesis
    by (intro conjI)
qed

subsection \<open>C7\<close>

text \<open>
  Claim C7, as stated: every call of \<^verbatim>\<open>Get\<close>, \<^verbatim>\<open>Put\<close> and \<^verbatim>\<open>Close\<close> succeeds, in every
  sequence of calls. It fails after \<^verbatim>\<open>Close\<close>: on a pool of \<^verbatim>\<open>TestPool\<close>'s options
  with capacity 1, \<^verbatim>\<open>Put\<close> after \<^verbatim>\<open>Close\<close> panics, and so does a second \<^verbatim>\<open>Close\<close>.
\<close>

theorem Put_after_Close_counterexample:
  "run 1 TestPool_options [OpClose, OpPut 7] = Inl (Panic SendOnClosedChannel) \<and>
   run 1 TestPool_options [OpClose, OpClose] = Inl (Panic CloseOfClosedChannel)"
  by (simp add: run_def TestPool_options_def NewPool_def makechan_def Close_open
      Put_closed Close_closed)

text \<open>
  Claim C7, amended. In every state that a run on a pool made by \<^verbatim>\<open>NewPool\<close> reaches,
  \<^verbatim>\<open>Get\<close> returns; as long as the run has not called \<^verbatim>\<open>Close\<close>, every \<^verbatim>\<open>Put\<close> returns
  and \<^verbatim>\<open>Close\<close> returns; no destructor goroutine and no \<^verbatim>\<open>Wait\<close> panics; and on a
  pool of capacity 0 without a constructor \<^verbatim>\<open>Get\<close> returns the zero value and leaves
  the pool as it is, before and after \<^verbatim>\<open>Close\<close>. \<^verbatim>\<open>Get\<close> has no way of waiting: it is
  a function of the state.
\<close>

theorem calls_succeed_until_Close:
  assumes new: "NewPool sz opt = Inr p0"
    and run: "exec ops p0 = Inr (rs, s)"
  shows "(\<exists>v s'. Get s = (v, s')) \<and>
         (OpClose \<notin> set ops \<longrightarrow> (\<forall>v. \<exists>s'. Put v s = Inr s') \<and> (\<exists>s'. Close s = Inr s')) \<and>
         (\<forall>i e. runGoroutine i s \<noteq> Inl (Panic e)) \<and>
         (\<forall>e. Wait s \<noteq> Inl (Panic e)) \<and>
         (sz = 0 \<and> NewFunc opt = None \<longrightarrow> Get s = (0, s))"
proof -
  have inv: "pool_inv s"
    using NewPool_inv [OF new] run by (rule exec_inv)
  from new exec_fixed [OF run]
  have fixed: "chan_cap (p_c s) = nat sz" "p_new s = NewFunc opt"
    by (simp_all add: NewPool_Inr)
  have get: "\<exists>v s'. Get s = (v, s')"
    by (cases "Get s") blast
  have before: "(\<forall>v. \<exists>s'. Put v s = Inr s') \<and> (\<exists>s'. Close s = Inr s')"
    if "OpClose \<notin> set ops"
  proof -
    from exec_not_Close [OF that run] new have op: "\<not> chan_closed (p_c s)"
      by (simp add: NewPool_Inr)
    have "\<exists>s'. Put v s = Inr s'" for v
      using op by (cases "length (chan_buf (p_c s)) < chan_cap (p_c s)")
        (simp_all add: Put_room Put_full)
    moreover have "\<exists>s'. Close s = Inr s'"
      using op by (simp add: Close_open)
    ultimately show ?thesis by blast
  qed
  have zero: "Get s = (0, s)" if "sz = 0" "NewFunc opt = None"
  proof -
    from that fixed inv have "chan_buf (p_c s) = []" "p_new s = None"
      by (simp_all add: pool_inv_def)
    then show ?thesis
      by (cases "chan_closed (p_c s)") (simp_all add: Get_empty_closed Get_empty_open maybeNew_def)
  qed
  have "\<forall>e. Wait s \<noteq> Inl (Panic e)"
    by (simp add: Wait_def)
  with get before zero runGoroutine_no_panic [OF inv] show ?thesis
    by blast
qed

theorem calls_succeed_until_Close_witness:
  "NewPool 0 \<lparr>NewFunc = None, CloseFunc = None\<rparr>
     = Inr (\<lparr>p_c = \<lparr>chan_buf = [], chan_cap = 0, chan_closed = False\<rparr>,
          p_new = None, p_close = None, p_wg = 0,
          newCalls = 0, goroutines = [], closeCalls = []\<rparr> :: nat pool) \<and>
   exec [OpPut 5, OpGet]
        \<lparr>p_c = \<lparr>chan_buf = [], chan_cap = 0, chan_closed = False\<rparr>,
          p_new = None, p_close = None, p_wg = 0,
          newCalls = 0, goroutines = [], closeCalls = []\<rparr>
     = Inr ([0 :: nat],
        \<lparr>p_c = \<lparr>chan_buf = [], chan_cap = 0, chan_closed = False\<rparr>,
          p_new = None, p_close = None, p_wg = 0,
          newCalls = 0, goroutines = [], closeCalls = []\<rparr>) \<and>
   Get (\<lparr>p_c = \<lparr>chan_buf = [], chan_cap = 0, chan_closed = False\<rparr>,
          p_new = None, p_close = None, p_wg = 0,
          newCalls = 0, goroutines = [], closeCalls = []\<rparr> :: nat pool)
     = (0,
        \<lparr>p_c = \<lparr>chan_buf = [], chan_cap = 0, chan_closed = False\<rparr>,
          p_new = None, p_close = None, p_wg = 0,
          newCalls = 0, goroutines = [], closeCalls = []\<rparr>) \<and>
   (\<exists>s'. Put (9 :: nat)
        \<lparr>p_c = \<lparr>chan_buf = [], chan_cap = 0, chan_closed = False\<rparr>,
          p_new = None, p_close = None, p_wg = 0,
          newCalls = 0, goroutines = [], closeCalls = []\<rparr> = Inr s') \<and>
   (\<exists>s'. Close (\<lparr>p_c = \<lparr>chan_buf = [], chan_cap = 0, chan_closed = False\<rparr>,
          p_new = None, p_close = None, p_wg = 0,
          newCalls = 0, goroutines = [], closeCalls = []\<rparr> :: nat pool) = Inr s')"
proof -
  let ?opt = "\<lparr>NewFunc = None, CloseFunc = None\<rparr> :: nat Options"
  let ?A = "\<lparr>p_c = \<lparr>chan_buf = [], chan_cap = 0, chan_closed = False\<rparr>,
          p_new = None, p_close = None, p_wg = 0,
          newCalls = 0, goroutines = [], closeCalls = []\<rparr> :: nat pool"
  let ?ops = "[OpPut 5, OpGet] :: nat op list"
  have new: "NewPool 0 ?opt = Inr ?A"
    by (simp add: NewPool_def makechan_def)
  have r: "exec ?ops ?A = Inr ([0], ?A)"
    by (simp add: Put_def try_send_def maybeClose_def Get_def try_recv_def maybeNew_def)
  have "OpClose \<notin> set ?ops"
    by simp
  with calls_succeed_until_Close [OF new r]
  have "Get ?A = (0, ?A)" "\<forall>v. \<exists>s'. Put v ?A = Inr s'" "\<exists>s'. Close ?A = Inr s'"
    by simp_all
  with new r show ?thesis
    by blast
qed

subsection \<open>C8\<close>

text \<open>
  Claim C8, as stated: capacity 100, 200 calls of \<^verbatim>\<open>Get\<close>, 200 calls of \<^verbatim>\<open>Put\<close> with the
  instances got, 100 calls of \<^verbatim>\<open>Get\<close>, then \<^verbatim>\<open>Close().Wait()\<close>, for 200 destructor
  invocations in total. Run as stated, with \<^verbatim>\<open>TestPool\<close>'s options, the store is empty
  when \<^verbatim>\<open>Close\<close> is called, \<^verbatim>\<open>Close\<close> starts no goroutine, and the run ends with 100
  destructor invocations: the \<^verbatim>\<open>Get\<close> calls returned the instances 1 to 200 and then
  1 to 100, and the log of the destructor has length 100.
\<close>

theorem TestPool_scenario_counterexample:
  "map_sum id (map_prod id (length \<circ> closeCalls))
     (run 100 TestPool_options
        (replicate 200 OpGet @ map OpPut (map Suc [0..<200]) @ replicate 100 OpGet @
         (OpClose # replicate 100 (Sched 0)) @ [OpWait]))
   = Inr (map Suc [0..<200] @ map Suc [0..<100], 100)"
proof -
  have h: "(100::nat) + 100 = 200"
    by simp
  obtain p0 :: "nat pool" where
    new: "NewPool (int 100) \<lparr>NewFunc = Some Suc, CloseFunc = Some (\<lambda>v. ())\<rparr> = Inr p0"
    by (simp add: NewPool_Inr)
  then have new': "NewPool 100 TestPool_options = Inr p0"
    by (simp add: TestPool_options_def)
  note r = TestPool_plain_run [OF new, unfolded h]
  have "exec (replicate 200 OpGet @ map OpPut (map Suc [0..<200]) @ replicate 100 OpGet @
      (OpClose # replicate 100 (Sched 0)) @ [OpWait]) p0 =
      Inr (map Suc [0..<200] @ map Suc [0..<100],
        p0\<lparr>newCalls := 200, p_c := (p_c p0)\<lparr>chan_closed := True\<rparr>,
           closeCalls := map Suc [100..<200]\<rparr>)"
    by (simp only: exec_append [of "replicate 200 OpGet"]
        exec_append [of "map OpPut (map Suc [0..<200])"]
        exec_append [of "replicate 100 OpGet"] r sum.case prod.case append_Nil append_Nil2)
  with new' show ?thesis
    by (simp add: run_def del: upt_rec_numeral)
qed

text \<open>
  Claim C8, amended: as the test does it, the 100 instances of the third phase are put
  back before \<^verbatim>\<open>Close\<close>. For every constructor \<open>f\<close> and destructor, and wherever the
  scheduler runs the destructor goroutines: the 200 calls of \<^verbatim>\<open>Get\<close> return the results
  of the first 200 constructor invocations; putting these back leaves the first 100 in the
  store and the last 100 destroyed or about to be; the next 100 calls of \<^verbatim>\<open>Get\<close> return
  the first 100 instances again, with no further constructor invocation and no further
  destruction; once these are put back, they are in the store, and \<^verbatim>\<open>Close().Wait()\<close>
  leaves the store empty with no goroutine pending, having added one destructor
  invocation for each of the 100 stored instances: 200 invocations in total, one for each
  instance constructed.
\<close>

theorem TestPool_scenario:
  fixes f :: "nat \<Rightarrow> 'a::zero"
  assumes new: "NewPool 100 \<lparr>NewFunc = Some f, CloseFunc = Some d\<rparr> = Inr p0"
    and A: "calls A = replicate 200 OpGet" "exec A p0 = Inr (r1, s1)"
    and B: "calls B = map OpPut r1" "exec B s1 = Inr (r2, s2)"
    and C: "calls C = replicate 100 OpGet" "exec C s2 = Inr (r3, s3)"
    and D: "calls D = map OpPut (rev r3)" "exec D s3 = Inr (r4, s4)"
    and E: "calls E = [OpClose]" "exec (E @ [OpWait]) s4 = Inr (r5, s5)"
  shows "r1 = map f [0..<200] \<and> newCalls s1 = 200 \<and>
         chan_buf (p_c s2) = map f [0..<100] \<and>
         mset (closeCalls s2) + mset (goroutines s2) = mset (map f [100..<200]) \<and>
         r3 = map f [0..<100] \<and> newCalls s3 = 200 \<and>
         mset (closeCalls s3) + mset (goroutines s3) = mset (map f [100..<200]) \<and>
         chan_buf (p_c s4) = rev (map f [0..<100]) \<and>
         mset (closeCalls s4) + mset (goroutines s4) = mset (map f [100..<200]) \<and>
         chan_buf (p_c s5) = [] \<and> goroutines s5 = [] \<and>
         mset (closeCalls s5) =
           mset (closeCalls s4) + mset (goroutines s4) + mset (chan_buf (p_c s4)) \<and>
         mset (closeCalls s5) = mset (map f [0..<200]) \<and>
         length (closeCalls s5) = 200"
proof -
  have h: "(100::nat) + 100 = 200"
    by simp
  from new have new': "NewPool (int 100) \<lparr>NewFunc = Some f, CloseFunc = Some d\<rparr> = Inr p0"
    by simp
  from A(1) have A': "calls A = replicate (100 + 100) OpGet"
    by simp
  note ph = TestPool_phases [OF new' A' A(2) B C, unfolded h]
  note pb = TestPool_put_back [OF new' A' A(2) B C D E, unfolded h]
  have "[0..<200] = [0..<100] @ [100..<200::nat]"
    using upt_add_eq_append [of 0 100 100] by (simp only: h add_0)
  then have "mset (map f [0..<200]) = mset (map f [100..<200]) + mset (rev (map f [0..<100]))"
    by (simp only: map_append mset_append mset_rev add.commute)
  with pb have "mset (closeCalls s5) =
      mset (closeCalls s4) + mset (goroutines s4) + mset (chan_buf (p_c s4))"
    by (simp only:)
  with ph pb show ?thesis
    by (intro conjI)
qed

theorem TestPool_scenario_witness:
  "\<exists>p0 s1 s2 s3 s4 s5.
     NewPool 100 TestPool_options = Inr p0 \<and>
     calls (replicate 200 OpGet) = replicate 200 OpGet \<and>
     exec (replicate 200 OpGet) p0 = Inr (map Suc [0..<200], s1) \<and>
     exec (map OpPut (map Suc [0..<200])) s1 = Inr ([], s2) \<and>
     exec (replicate 100 OpGet) s2 = Inr (map Suc [0..<100], s3) \<and>
     exec (map OpPut (rev (map Suc [0..<100]))) s3 = Inr ([], s4) \<and>
     calls (OpClose # replicate 200 (Sched 0)) = [OpClose] \<and>
     exec ((OpClose # replicate 200 (Sched 0)) @ [OpWait]) s4 = Inr ([], s5) \<and>
     chan_buf (p_c s5) = [] \<and> goroutines s5 = [] \<and>
     mset (closeCalls s5) = mset (map Suc [0..<200]) \<and> length (closeCalls s5) = 200"
proof -
  have h: "(100::nat) + 100 = 200"
    by simp
  obtain p0 :: "nat pool" where
    new: "NewPool (int 100) \<lparr>NewFunc = Some Suc, CloseFunc = Some (\<lambda>v. ())\<rparr> = Inr p0"
    by (simp add: NewPool_Inr)
  then have new': "NewPool 100 \<lparr>NewFunc = Some Suc, CloseFunc = Some (\<lambda>v. ())\<rparr> = Inr p0"
    by simp
  note r = TestPool_plain_run [OF new, unfolded h]
  note c = calls_plain
  note t = TestPool_scenario [OF new' c(1) r(1) c(2) r(2) c(1) r(3) c(2) r(4) c(3) r(5)]
  from new' have "NewPool 100 TestPool_options = Inr p0"
    by (simp only: TestPool_options_def)
  with r(1-5) c(1) [of 200] c(3) [of 200] t show ?thesis
    by blast
qed

subsection \<open>C9\<close>

text \<open>
  Claim C9. Once \<^verbatim>\<open>Close\<close> has returned, whatever the run does next, \<^verbatim>\<open>Get\<close> returns the
  zero value and leaves the pool as it is, so the constructor is not invoked, supplied
  or not: every \<^verbatim>\<open>Get\<close> of the run after \<^verbatim>\<open>Close\<close> has returned the zero value, the
  next one does, and the number of constructor invocations is the one before \<^verbatim>\<open>Close\<close>.
\<close>

theorem Get_after_Close:
  assumes "Close p = Inr p1" and "exec ops p1 = Inr (rs, s)"
  shows "Get s = (0, s) \<and> newCalls s = newCalls p \<and> set rs \<subseteq> {0}"
proof -
  from Close_Inr_closed [OF assms(1)]
  have "chan_closed (p_c p1)" "chan_buf (p_c p1) = []" "newCalls p1 = newCalls p"
    by simp_all
  with exec_after_Close [OF _ _ assms(2)] show ?thesis
    by (simp add: Get_empty_closed)
qed

theorem Get_after_Close_witness:
  "Close (\<lparr>p_c = \<lparr>chan_buf = [5, 6], chan_cap = 2, chan_closed = False\<rparr>,
          p_new = Some Suc, p_close = Some (\<lambda>v. ()), p_wg = 0,
          newCalls = 2, goroutines = [], closeCalls = []\<rparr> :: nat pool)
     = Inr \<lparr>p_c = \<lparr>chan_buf = [], chan_cap = 2, chan_closed = True\<rparr>,
          p_new = Some Suc, p_close = Some (\<lambda>v. ()), p_wg = 2,
          newCalls = 2, goroutines = [5, 6], closeCalls = []\<rparr> \<and>
   exec [OpGet, Sched 0, OpGet]
        \<lparr>p_c = \<lparr>chan_buf = [], chan_cap = 2, chan_closed = True\<rparr>,
          p_new = Some Suc, p_close = Some (\<lambda>v. ()), p_wg = 2,
          newCalls = 2, goroutines = [5, 6], closeCalls = []\<rparr>
     = Inr ([0, 0],
        \<lparr>p_c = \<lparr>chan_buf = [], chan_cap = 2, chan_closed = True\<rparr>,
          p_new = Some Suc, p_close = Some (\<lambda>v. ()), p_wg = 1,
          newCalls = 2, goroutines = [6], closeCalls = [5]\<rparr>) \<and>
   Get (\<lparr>p_c = \<lparr>chan_buf = [], chan_cap = 2, chan_closed = True\<rparr>,
          p_new = Some Suc, p_close = Some (\<lambda>v. ()), p_wg = 1,
          newCalls = 2, goroutines = [6], closeCalls = [5]\<rparr> :: nat pool)
     = (0, \<lparr>p_c = \<lparr>chan_buf = [], chan_cap = 2, chan_closed = True\<rparr>,
          p_new = Some Suc, p_close = Some (\<lambda>v. ()), p_wg = 1,
          newCalls = 2, goroutines = [6], closeCalls = [5]\<rparr>)"
proof -
  let ?P = "\<lparr>p_c = \<lparr>chan_buf = [5, 6], chan_cap = 2, chan_closed = False\<rparr>,
          p_new = Some Suc, p_close = Some (\<lambda>v. ()), p_wg = 0,
          newCalls = 2, goroutines = [], closeCalls = []\<rparr> :: nat pool"
  let ?P1 = "\<lparr>p_c = \<lparr>chan_buf = [], chan_cap = 2, chan_closed = True\<rparr>,
          p_new = Some Suc, p_close = Some (\<lambda>v. ()), p_wg = 2,
          newCalls = 2, goroutines = [5, 6], closeCalls = []\<rparr> :: nat pool"
  let ?S = "\<lparr>p_c = \<lparr>chan_buf = [], chan_cap = 2, chan_closed = True\<rparr>,
          p_new = Some Suc, p_close = Some (\<lambda>v. ()), p_wg = 1,
          newCalls = 2, goroutines = [6], closeCalls = [5]\<rparr> :: nat pool"
  have c: "Close ?P = Inr ?P1"
    by (simp add: Close_open)
  have e: "exec [OpGet, Sched 0, OpGet] ?P1 = Inr ([0, 0], ?S)"
    by (simp add: Get_empty_closed runGoroutine_def)
  from Get_after_Close [OF c e] c e show ?thesis
    by simp
qed

subsection \<open>C10\<close>

text \<open>
  Claim C10. Once \<^verbatim>\<open>Close\<close> has returned, whatever the run does next, a \<^verbatim>\<open>Put\<close> panics
  with a send on a closed channel and a second \<^verbatim>\<open>Close\<close> panics with a close of a
  closed channel.
\<close>

theorem Put_and_Close_after_Close:
  assumes "Close p = Inr p1" and "exec ops p1 = Inr (rs, s)"
  shows "Put v s = Inl (Panic SendOnClosedChannel) \<and> Close s = Inl (Panic CloseOfClosedChannel)"
proof -
  from Close_Inr_closed [OF assms(1)]
  have "chan_closed (p_c p1)" "chan_buf (p_c p1) = []"
    by simp_all
  with exec_after_Close [OF _ _ assms(2)] show ?thesis
    by (simp add: Put_closed Close_closed)
qed

theorem Put_and_Close_after_Close_witness:
  "Close (\<lparr>p_c = \<lparr>chan_buf = [5, 6], chan_cap = 2, chan_closed = False\<rparr>,
          p_new = Some Suc, p_close = Some (\<lambda>v. ()), p_wg = 0,
          newCalls = 2, goroutines = [], closeCalls = []\<rparr> :: nat pool)
     = Inr \<lparr>p_c = \<lparr>chan_buf = [], chan_cap = 2, chan_closed = True\<rparr>,
          p_new = Some Suc, p_close = Some (\<lambda>v. ()), p_wg = 2,
          newCalls = 2, goroutines = [5, 6], closeCalls = []\<rparr> \<and>
   exec [OpGet, Sched 1]
        \<lparr>p_c = \<lparr>chan_buf = [], chan_cap = 2, chan_closed = True\<rparr>,
          p_new = Some Suc, p_close = Some (\<lambda>v. ()), p_wg = 2,
          newCalls = 2, goroutines = [5, 6], closeCalls = []\<rparr>
     = Inr ([0],
        \<lparr>p_c = \<lparr>chan_buf = [], chan_cap = 2, chan_closed = True\<rparr>,
          p_new = Some Suc, p_close = Some (\<lambda>v. ()), p_wg = 1,
          newCalls = 2, goroutines = [5], closeCalls = [6]\<rparr>) \<and>
   Put 9 (\<lparr>p_c = \<lparr>chan_buf = [], chan_cap = 2, chan_closed = True\<rparr>,
          p_new = Some Suc, p_close = Some (\<lambda>v. ()), p_wg = 1,
          newCalls = 2, goroutines = [5], closeCalls = [6]\<rparr> :: nat pool)
     = Inl (Panic SendOnClosedChannel) \<and>
   Close (\<lparr>p_c = \<lparr>chan_buf = [], chan_cap = 2, chan_closed = True\<rparr>,
          p_new = Some Suc, p_close = Some (\<lambda>v. ()), p_wg = 1,
          newCalls = 2, goroutines = [5], closeCalls = [6]\<rparr> :: nat pool)
     = Inl (Panic CloseOfClosedChannel)"
proof -
  let ?P = "\<lparr>p_c = \<lparr>chan_buf = [5, 6], chan_cap = 2, chan_closed = False\<rparr>,
          p_new = Some Suc, p_close = Some (\<lambda>v. ()), p_wg = 0,
          newCalls = 2, goroutines = [], closeCalls = []\<rparr> :: nat pool"
  let ?P1 = "\<lparr>p_c = \<lparr>chan_buf = [], chan_cap = 2, chan_closed = True\<rparr>,
          p_new = Some Suc, p_close = Some (\<lambda>v. ()), p_wg = 2,
          newCalls = 2, goroutines = [5, 6], closeCalls = []\<rparr> :: nat pool"
  let ?S = "\<lparr>p_c = \<lparr>chan_buf = [], chan_cap = 2, chan_closed = True\<rparr>,
          p_new = Some Suc, p_close = Some (\<lambda>v. ()), p_wg = 1,
          newCalls = 2, goroutines = [5], closeCalls = [6]\<rparr> :: nat pool"
  have c: "Close ?P = Inr ?P1"
    by (simp add: Close_open)
  have e: "exec [OpGet, Sched 1] ?P1 = Inr ([0], ?S)"
    by (simp add: Get_empty_closed runGoroutine_def)
  from Put_and_Close_after_Close [OF c e, of 9] c e show ?thesis
    by simp
qed

end
